theory Spec2Isabelle
  imports Complex_Main "HOL-Library.AList" "HOL-Library.Product_Lexorder"
begin

section \<open>The similarity score\<close>

text \<open>
  Every strategy of \<^verbatim>\<open>datesy/matching.py\<close> scores a pair of labels with
  \<^verbatim>\<open>SequenceMatcher(None, entry_a, entry_b).ratio()\<close> of Python's \<^verbatim>\<open>difflib\<close>.
  The definitions of this section follow \<^verbatim>\<open>difflib.SequenceMatcher\<close> as it runs for that
  call: no junk predicate (\<^verbatim>\<open>isjunk=None\<close>, so \<^verbatim>\<open>bjunk\<close> is empty and the two loops
  that extend a block over junk never run) and \<^verbatim>\<open>autojunk=True\<close>. Python's float
  \<^verbatim>\<open>2.0 * matches / length\<close> is the rational number of the same value here, and so are
  the limits and distances that the strategies compare scores with: scores are ordered,
  and in the interactive strategies subtracted, exactly, where Python rounds to binary
  floating point.
\<close>

type_synonym label = string
type_synonym block = "nat \<times> nat \<times> nat"

definition popular :: "string \<Rightarrow> char \<Rightarrow> bool" where
  "popular b elt \<longleftrightarrow> 200 \<le> length b \<and> length b div 100 + 1 < count_list b elt"

definition b2j :: "string \<Rightarrow> char \<Rightarrow> nat list" where
  "b2j b elt = (if popular b elt then [] else filter (\<lambda>j. b ! j = elt) [0..<length b])"

definition j2lenget :: "(nat \<rightharpoonup> nat) \<Rightarrow> nat \<Rightarrow> nat" where
  "j2lenget j2len j = (if j = 0 then 0 else case j2len (j - 1) of None \<Rightarrow> 0 | Some k \<Rightarrow> k)"

fun flm_row :: "nat \<Rightarrow> nat \<Rightarrow> nat \<Rightarrow> (nat \<rightharpoonup> nat) \<Rightarrow> nat list \<Rightarrow> (nat \<rightharpoonup> nat) \<Rightarrow> block
    \<Rightarrow> (nat \<rightharpoonup> nat) \<times> block" where
  "flm_row blo bhi i j2len [] newj2len best = (newj2len, best)"
| "flm_row blo bhi i j2len (j # js) newj2len (besti, bestj, bestsize) =
     (if j < blo then flm_row blo bhi i j2len js newj2len (besti, bestj, bestsize)
      else if bhi \<le> j then (newj2len, (besti, bestj, bestsize))
      else let k = j2lenget j2len j + 1 in
        flm_row blo bhi i j2len js (newj2len(j \<mapsto> k))
          (if bestsize < k then (i + 1 - k, j + 1 - k, k) else (besti, bestj, bestsize)))"

fun flm_rows :: "string \<Rightarrow> string \<Rightarrow> nat \<Rightarrow> nat \<Rightarrow> nat list \<Rightarrow> (nat \<rightharpoonup> nat) \<Rightarrow> block \<Rightarrow> block" where
  "flm_rows a b blo bhi [] j2len best = best"
| "flm_rows a b blo bhi (i # is) j2len best =
     (case flm_row blo bhi i j2len (b2j b (a ! i)) Map.empty best of
        (newj2len, best') \<Rightarrow> flm_rows a b blo bhi is newj2len best')"

fun extend_left :: "string \<Rightarrow> string \<Rightarrow> nat \<Rightarrow> nat \<Rightarrow> nat \<Rightarrow> nat \<Rightarrow> nat \<Rightarrow> block" where
  "extend_left a b alo blo besti bestj bestsize =
     (if alo < besti \<and> blo < bestj \<and> a ! (besti - 1) = b ! (bestj - 1)
      then extend_left a b alo blo (besti - 1) (bestj - 1) (bestsize + 1)
      else (besti, bestj, bestsize))"

function extend_right :: "string \<Rightarrow> string \<Rightarrow> nat \<Rightarrow> nat \<Rightarrow> nat \<Rightarrow> nat \<Rightarrow> nat \<Rightarrow> block" where
  "extend_right a b ahi bhi besti bestj bestsize =
     (if besti + bestsize < ahi \<and> bestj + bestsize < bhi \<and> a ! (besti + bestsize) = b ! (bestj + bestsize)
      then extend_right a b ahi bhi besti bestj (bestsize + 1)
      else (besti, bestj, bestsize))"
  by pat_completeness auto
termination
  by (relation "measure (\<lambda>(a, b, ahi, bhi, besti, bestj, bestsize). ahi - (besti + bestsize))") auto

declare extend_left.simps [simp del] extend_right.simps [simp del]

definition find_longest_match :: "string \<Rightarrow> string \<Rightarrow> nat \<Rightarrow> nat \<Rightarrow> nat \<Rightarrow> nat \<Rightarrow> block" where
  "find_longest_match a b alo ahi blo bhi =
     (case flm_rows a b blo bhi [alo..<ahi] Map.empty (alo, blo, 0) of
        (besti, bestj, bestsize) \<Rightarrow>
          (case extend_left a b alo blo besti bestj bestsize of
             (besti, bestj, bestsize) \<Rightarrow> extend_right a b ahi bhi besti bestj bestsize))"



definition j2len_ok :: "string \<Rightarrow> string \<Rightarrow> nat \<Rightarrow> nat \<Rightarrow> nat \<Rightarrow> nat \<Rightarrow> (nat \<rightharpoonup> nat) \<Rightarrow> bool" where
  "j2len_ok a b alo blo bhi i j2len \<longleftrightarrow>
     (\<forall>j v. j2len j = Some v \<longrightarrow>
        0 < v \<and> v \<le> i - alo \<and> blo + v \<le> j + 1 \<and> j < bhi \<and> (\<forall>t<v. a ! (i - 1 - t) = b ! (j - t)))"

definition block_ok :: "string \<Rightarrow> string \<Rightarrow> nat \<Rightarrow> nat \<Rightarrow> nat \<Rightarrow> nat \<Rightarrow> block \<Rightarrow> bool" where
  "block_ok a b alo ahi blo bhi blk \<longleftrightarrow>
     (case blk of (i, j, k) \<Rightarrow>
        (k = 0 \<and> i = alo \<and> j = blo) \<or>
        (0 < k \<and> alo \<le> i \<and> i + k \<le> ahi \<and> blo \<le> j \<and> j + k \<le> bhi \<and> (\<forall>t<k. a ! (i + t) = b ! (j + t))))"

lemma j2lenget_le: "j2len_ok a b alo blo bhi i j2len \<Longrightarrow> j2lenget j2len j \<le> i - alo"
  by (auto simp: j2len_ok_def j2lenget_def split: option.splits)

lemma j2lenget_run:
  assumes "j2len_ok a b alo blo bhi i j2len" and "blo \<le> j" and "b ! j = a ! i" and "alo \<le> i"
    and "t < j2lenget j2len j + 1"
  shows "a ! (i - t) = b ! (j - t) \<and> blo + (j2lenget j2len j + 1) \<le> j + 1"
proof (cases "j = 0 \<or> j2len (j - 1) = None")
  case True
  then have "j2lenget j2len j = 0" by (auto simp: j2lenget_def)
  with assms show ?thesis by simp
next
  case False
  then obtain v where v: "j2len (j - 1) = Some v" and j: "0 < j" by auto
  then have g: "j2lenget j2len j = v" by (simp add: j2lenget_def)
  from assms(1) v have ok: "0 < v" "v \<le> i - alo" "blo + v \<le> j - 1 + 1"
    "\<forall>t<v. a ! (i - 1 - t) = b ! (j - 1 - t)"
    by (auto simp: j2len_ok_def)
  show ?thesis
  proof (cases t)
    case 0
    with assms ok j g show ?thesis by simp
  next
    case (Suc t')
    with assms(5) g have "t' < v" by simp
    with ok have "a ! (i - 1 - t') = b ! (j - 1 - t')" by blast
    with Suc ok j g show ?thesis by simp
  qed
qed

lemma flm_row_ok:
  assumes "flm_row blo bhi i j2len js new best = (new', best')"
    and "j2len_ok a b alo blo bhi i j2len"
    and "j2len_ok a b alo blo bhi (Suc i) new"
    and "block_ok a b alo ahi blo bhi best"
    and "alo \<le> i" and "i < ahi"
    and "\<forall>j\<in>set js. b ! j = a ! i"
  shows "j2len_ok a b alo blo bhi (Suc i) new' \<and> block_ok a b alo ahi blo bhi best'"
  using assms
proof (induction js arbitrary: new best)
  case Nil
  then show ?case by simp
next
  case (Cons j js)
  obtain bi bj bs where best: "best = (bi, bj, bs)" by (cases best) auto
  show ?case
  proof (cases "j < blo")
    case True
    with Cons.prems best have "flm_row blo bhi i j2len js new best = (new', best')" by simp
    with Cons.IH Cons.prems show ?thesis by simp
  next
    case lo: False
    show ?thesis
    proof (cases "bhi \<le> j")
      case True
      with lo Cons.prems best show ?thesis by simp
    next
      case hi: False
      define k where "k = j2lenget j2len j + 1"
      define best2 where "best2 = (if bs < k then (i + 1 - k, j + 1 - k, k) else (bi, bj, bs))"
      from lo hi Cons.prems(1) best
      have run: "flm_row blo bhi i j2len js (new(j \<mapsto> k)) best2 = (new', best')"
        by (auto simp: k_def best2_def Let_def)
      have bj: "b ! j = a ! i" using Cons.prems by simp
      have kle: "k \<le> Suc i - alo"
        using j2lenget_le [OF Cons.prems(2), of j] Cons.prems(5) by (simp add: k_def)
      have runs: "\<And>t. t < k \<Longrightarrow> a ! (i - t) = b ! (j - t)" and kj: "blo + k \<le> j + 1"
        using j2lenget_run [OF Cons.prems(2) _ bj Cons.prems(5)] lo by (auto simp: k_def)
      have new_ok: "j2len_ok a b alo blo bhi (Suc i) (new(j \<mapsto> k))"
        using Cons.prems(3) kle kj hi runs by (auto simp: j2len_ok_def k_def)
      have "block_ok a b alo ahi blo bhi (i + 1 - k, j + 1 - k, k)"
      proof -
        have "\<forall>t<k. a ! (i + 1 - k + t) = b ! (j + 1 - k + t)"
        proof (intro allI impI)
          fix t assume t: "t < k"
          then have "k - 1 - t < k" by simp
          from runs [OF this] have r: "a ! (i - (k - 1 - t)) = b ! (j - (k - 1 - t))" .
          have e1: "i - (k - 1 - t) = i + 1 - k + t" using t kle Cons.prems(5) by simp
          have e2: "j - (k - 1 - t) = j + 1 - k + t" using t kj by simp
          from r show "a ! (i + 1 - k + t) = b ! (j + 1 - k + t)" by (simp only: e1 e2)
        qed
        moreover have "0 < k" by (simp add: k_def)
        moreover have "alo \<le> i + 1 - k" "i + 1 - k + k \<le> ahi"
          using kle Cons.prems(5,6) by arith+
        moreover have "blo \<le> j + 1 - k" "j + 1 - k + k \<le> bhi"
          using kj hi by arith+
        ultimately show ?thesis
          unfolding block_ok_def by simp
      qed
      with Cons.prems(4) best have best_ok: "block_ok a b alo ahi blo bhi best2"
        by (simp add: best2_def)
      from Cons.IH [OF run Cons.prems(2) new_ok best_ok Cons.prems(5,6)] Cons.prems(7)
      show ?thesis by simp
    qed
  qed
qed

lemma b2j_eq: "j \<in> set (b2j b elt) \<Longrightarrow> b ! j = elt"
  by (auto simp: b2j_def split: if_splits)

lemma flm_rows_ok:
  assumes "j2len_ok a b alo blo bhi i j2len" and "block_ok a b alo ahi blo bhi best" and "alo \<le> i"
  shows "block_ok a b alo ahi blo bhi (flm_rows a b blo bhi [i..<ahi] j2len best)"
  using assms
proof (induction "ahi - i" arbitrary: i j2len best)
  case 0
  then show ?case by simp
next
  case (Suc n)
  then have lt: "i < ahi" and n: "n = ahi - Suc i" by auto
  obtain new' best' where row: "flm_row blo bhi i j2len (b2j b (a ! i)) Map.empty best = (new', best')"
    by (cases "flm_row blo bhi i j2len (b2j b (a ! i)) Map.empty best") auto
  have "j2len_ok a b alo blo bhi (Suc i) Map.empty" by (simp add: j2len_ok_def)
  from flm_row_ok [OF row Suc.prems(1) this Suc.prems(2,3) lt] b2j_eq
  have ok: "j2len_ok a b alo blo bhi (Suc i) new'" "block_ok a b alo ahi blo bhi best'" by auto
  from Suc.hyps(1) [OF n ok] Suc.prems(3)
  have "block_ok a b alo ahi blo bhi (flm_rows a b blo bhi [Suc i..<ahi] new' best')" by simp
  with lt row show ?case by (simp add: upt_conv_Cons)
qed

lemma extend_left_ok:
  "block_ok a b alo ahi blo bhi (besti, bestj, bestsize) \<Longrightarrow>
   block_ok a b alo ahi blo bhi (extend_left a b alo blo besti bestj bestsize)"
proof (induction a b alo blo besti bestj bestsize rule: extend_left.induct)
  case (1 a b alo blo besti bestj bestsize)
  show ?case
  proof (cases "alo < besti \<and> blo < bestj \<and> a ! (besti - 1) = b ! (bestj - 1)")
    case True
    with "1.prems" have "block_ok a b alo ahi blo bhi (besti - 1, bestj - 1, bestsize + 1)"
      apply (auto simp: block_ok_def)
      subgoal for t by (cases t) auto
      done
    with "1.IH" True show ?thesis by (simp add: extend_left.simps [of a b alo blo besti bestj bestsize])
  next
    case False
    with "1.prems" show ?thesis by (subst extend_left.simps) auto
  qed
qed

lemma extend_right_ok:
  "block_ok a b alo ahi blo bhi (besti, bestj, bestsize) \<Longrightarrow>
   block_ok a b alo ahi blo bhi (extend_right a b ahi bhi besti bestj bestsize)"
proof (induction a b ahi bhi besti bestj bestsize rule: extend_right.induct)
  case (1 a b ahi bhi besti bestj bestsize)
  show ?case
  proof (cases "besti + bestsize < ahi \<and> bestj + bestsize < bhi \<and> a ! (besti + bestsize) = b ! (bestj + bestsize)")
    case True
    with "1.prems" have "block_ok a b alo ahi blo bhi (besti, bestj, bestsize + 1)"
      by (auto simp: block_ok_def less_Suc_eq)
    with "1.IH" True show ?thesis by (simp add: extend_right.simps [of a b ahi bhi besti bestj bestsize])
  next
    case False
    with "1.prems" show ?thesis by (subst extend_right.simps) auto
  qed
qed

lemma find_longest_match_ok: "block_ok a b alo ahi blo bhi (find_longest_match a b alo ahi blo bhi)"
proof -
  have "block_ok a b alo ahi blo bhi (flm_rows a b blo bhi [alo..<ahi] Map.empty (alo, blo, 0))"
    by (rule flm_rows_ok) (simp_all add: j2len_ok_def block_ok_def)
  then show ?thesis
    by (auto simp: find_longest_match_def split: prod.splits intro!: extend_right_ok dest!: extend_left_ok)
qed


function matching_blocks :: "string \<Rightarrow> string \<Rightarrow> nat \<Rightarrow> nat \<Rightarrow> nat \<Rightarrow> nat \<Rightarrow> block list" where
  "matching_blocks a b alo ahi blo bhi =
     (case find_longest_match a b alo ahi blo bhi of
        (i, j, k) \<Rightarrow>
          if k = 0 then []
          else (i, j, k)
               # (if i + k < ahi \<and> j + k < bhi then matching_blocks a b (i + k) ahi (j + k) bhi else [])
               @ (if alo < i \<and> blo < j then matching_blocks a b alo i blo j else []))"
  by pat_completeness auto
termination
proof (relation "measure (\<lambda>(a, b, alo, ahi, blo, bhi). ahi - alo)")
  show "wf (measure (\<lambda>(a, b, alo, ahi, blo, bhi). ahi - alo))" by simp
next
  fix a b alo ahi blo bhi x y i j k
  assume "(i, y) = find_longest_match a b alo ahi blo bhi" "(j, k) = y" "k \<noteq> 0"
  then have m: "find_longest_match a b alo ahi blo bhi = (i, j, k)" by simp
  from find_longest_match_ok [of a b alo ahi blo bhi] m \<open>k \<noteq> 0\<close>
  have "alo \<le> i" "i + k \<le> ahi" by (auto simp: block_ok_def)
  then show "i + k < ahi \<and> j + k < bhi \<Longrightarrow>
      ((a, b, i + k, ahi, j + k, bhi), (a, b, alo, ahi, blo, bhi))
        \<in> measure (\<lambda>(a, b, alo, ahi, blo, bhi). ahi - alo)"
    and "alo < i \<and> blo < j \<Longrightarrow>
      ((a, b, alo, i, blo, j), (a, b, alo, ahi, blo, bhi))
        \<in> measure (\<lambda>(a, b, alo, ahi, blo, bhi). ahi - alo)"
    using \<open>k \<noteq> 0\<close> by auto
qed

declare matching_blocks.simps [simp del]

fun collapse :: "block \<Rightarrow> block list \<Rightarrow> block list" where
  "collapse (i1, j1, k1) [] = (if k1 \<noteq> 0 then [(i1, j1, k1)] else [])"
| "collapse (i1, j1, k1) ((i2, j2, k2) # rest) =
     (if i1 + k1 = i2 \<and> j1 + k1 = j2 then collapse (i1, j1, k1 + k2) rest
      else (if k1 \<noteq> 0 then [(i1, j1, k1)] else []) @ collapse (i2, j2, k2) rest)"

definition get_matching_blocks :: "string \<Rightarrow> string \<Rightarrow> block list" where
  "get_matching_blocks a b =
     collapse (0, 0, 0) (sort (matching_blocks a b 0 (length a) 0 (length b)))
       @ [(length a, length b, 0)]"

definition calculate_ratio :: "nat \<Rightarrow> nat \<Rightarrow> rat" where
  "calculate_ratio matches len = (if len \<noteq> 0 then 2 * of_nat matches / of_nat len else 1)"

definition ratio :: "string \<Rightarrow> string \<Rightarrow> rat" where
  "ratio a b =
     calculate_ratio (sum_list (map (\<lambda>(i, j, k). k) (get_matching_blocks a b))) (length a + length b)"


section \<open>Labels, errors and Python containers\<close>

text \<open>
  A label is a Python \<^verbatim>\<open>str\<close>. An exception that leaves a function is the \<open>Inl\<close> of its
  result. A \<^verbatim>\<open>dict\<close> is an association list in insertion order with distinct keys,
  read with \<^const>\<open>map_of\<close> and written with \<^const>\<open>AList.update\<close> (which replaces the
  value of a key in place and appends a new key at the end, as Python does).
\<close>

datatype error =
    NotUnique "label set"               \<comment> \<open>ValueError of \<^verbatim>\<open>_check_uniqueness_of_entries\<close>, with its doubles\<close>
  | MultipleSameValue                   \<comment> \<open>ValueError of the uniqueness tests of \<^verbatim>\<open>match_similar\<close>\<close>
  | SimplificationNotUnique "label set" \<comment> \<open>ValueError of \<^verbatim>\<open>simplify_strings\<close>, with \<^verbatim>\<open>not_unique\<close>\<close>
  | NoSimplification                    \<comment> \<open>ValueError "either simplifier or lower_case must be set"\<close>
  | ValueError                          \<comment> \<open>\<^verbatim>\<open>list.remove(x)\<close>: x not in list\<close>
  | IndexError
  | KeyError
  | TypeError
  | EOFError                            \<comment> \<open>\<^verbatim>\<open>input()\<close> with nothing left to read\<close>

text \<open>
  The value stored under a key of \<^verbatim>\<open>match\<close> (and of a similarity dict) is a \<^verbatim>\<open>str\<close> or
  a \<^verbatim>\<open>list\<close> of \<^verbatim>\<open>str\<close>; \<^verbatim>\<open>match_similar_with_manual_selection\<close> can also store a float.
\<close>

datatype match_value = Single label | Tied "label list" | Score rat

type_synonym match_dict = "(label \<times> match_value) list"

definition list_remove :: "'a \<Rightarrow> 'a list \<Rightarrow> error + 'a list" where
  "list_remove x xs = (if x \<in> set xs then Inr (remove1 x xs) else Inl ValueError)"

definition members :: "match_value \<Rightarrow> label set" where
  "members v = (case v of Single b \<Rightarrow> {b} | Tied bs \<Rightarrow> set bs | Score r \<Rightarrow> {})"

section \<open>Normalizer\<close>

text \<open>
  \<^verbatim>\<open>str.lower()\<close> on ASCII labels, and \<^verbatim>\<open>"".join(re.split(separators, key))\<close> for the
  default character class \<^verbatim>\<open>"[_, | \n ' & \" % \\ * -]"\<close>: the class holds underscore,
  comma, space, bar, newline, both quotes, ampersand, percent, asterisk and hyphen (the
  backslash of the Python literal escapes the space that follows it in the pattern).
\<close>

definition lower_char :: "char \<Rightarrow> char" where
  "lower_char c =
     (case map_of (zip ''ABCDEFGHIJKLMNOPQRSTUVWXYZ'' ''abcdefghijklmnopqrstuvwxyz'') c of
        Some d \<Rightarrow> d | None \<Rightarrow> c)"

definition lower :: "string \<Rightarrow> string" where
  "lower s = map lower_char s"

definition separator_chars :: "char list" where
  "separator_chars = [CHR ''_'', CHR '','', CHR '' '', CHR ''|'', CHR 0x0A, CHR 0x27,
     CHR ''&'', CHR 0x22, CHR ''%'', CHR ''*'', CHR ''-'']"

definition remove_separators :: "string \<Rightarrow> string" where
  "remove_separators s = filter (\<lambda>c. c \<notin> set separator_chars) s"

text \<open>
  The \<^verbatim>\<open>simplifier\<close> argument of \<^verbatim>\<open>simplify_strings\<close>: a false value, \<^verbatim>\<open>True\<close> (the
  default class), or a string \<^verbatim>\<open>s\<close> that is compiled as the pattern \<^verbatim>\<open>[s]\<close>; the
  custom pattern is taken as the function \<^verbatim>\<open>key \<mapsto> "".join(re.split("[s]", key))\<close>.
\<close>

datatype simplifier = NoSimplifier | DefaultSimplifier | CustomSimplifier "string \<Rightarrow> string"

fun is_set :: "simplifier \<Rightarrow> bool" where
  "is_set NoSimplifier = False"
| "is_set DefaultSimplifier = True"
| "is_set (CustomSimplifier f) = True"

fun split_join :: "simplifier \<Rightarrow> string \<Rightarrow> string" where
  "split_join NoSimplifier key = key"
| "split_join DefaultSimplifier key = remove_separators key"
| "split_join (CustomSimplifier f) key = f key"

definition simplified_key :: "bool \<Rightarrow> simplifier \<Rightarrow> label \<Rightarrow> error + label" where
  "simplified_key lower_case simplifier key =
     (if is_set simplifier \<and> lower_case then Inr (lower (split_join simplifier key))
      else if is_set simplifier then Inr (split_join simplifier key)
      else if lower_case then Inr (lower key)
      else Inl NoSimplification)"

definition add_to_simplified ::
  "label \<Rightarrow> label \<Rightarrow> (label \<times> label) list \<times> label set \<Rightarrow> (label \<times> label) list \<times> label set" where
  "add_to_simplified key val st =
     (case st of (simplified, not_unique) \<Rightarrow>
        (case map_of simplified key of
           Some v \<Rightarrow> (simplified, insert val (insert v not_unique))
         | None \<Rightarrow> (AList.update key val simplified, not_unique)))"

fun simplify_loop ::
  "bool \<Rightarrow> simplifier \<Rightarrow> label list \<Rightarrow> (label \<times> label) list \<times> label set
     \<Rightarrow> error + ((label \<times> label) list \<times> label set)" where
  "simplify_loop lower_case simplifier [] st = Inr st"
| "simplify_loop lower_case simplifier (key # rest) st =
     (case simplified_key lower_case simplifier key of
        Inl e \<Rightarrow> Inl e
      | Inr k \<Rightarrow> simplify_loop lower_case simplifier rest (add_to_simplified k key st))"

definition simplify_strings :: "label list \<Rightarrow> bool \<Rightarrow> simplifier \<Rightarrow> error + (label \<times> label) list" where
  "simplify_strings to_simplify lower_case simplifier =
     (case simplify_loop lower_case simplifier to_simplify ([], {}) of
        Inl e \<Rightarrow> Inl e
      | Inr (simplified, not_unique) \<Rightarrow>
          if not_unique \<noteq> {} then Inl (SimplificationNotUnique not_unique) else Inr simplified)"

fun doubles_loop :: "label list \<Rightarrow> label set \<Rightarrow> label set \<Rightarrow> label set" where
  "doubles_loop [] entries doubles = doubles"
| "doubles_loop (entry # rest) entries doubles =
     doubles_loop rest (insert entry entries) (if entry \<in> entries then insert entry doubles else doubles)"

definition check_uniqueness_of_entries :: "label list \<Rightarrow> error + bool" where
  "check_uniqueness_of_entries data_set =
     (if card (set data_set) \<noteq> length data_set then Inl (NotUnique (doubles_loop data_set {} {}))
      else Inr True)"


section \<open>Direct matches\<close>

text \<open>
  \<^verbatim>\<open>_find_direct_matches\<close> walks a copy of \<^verbatim>\<open>list_for_matching\<close> and removes every
  entry that also occurs in \<^verbatim>\<open>list_to_be_matched_to\<close> from both lists, in place. The
  model returns the dict together with the two lists as they are left. The same loop is
  written out at the start of \<^verbatim>\<open>match_similar\<close>. The two arguments are taken to be two
  different list objects.
\<close>

fun direct_matches_loop ::
  "label list \<Rightarrow> match_dict \<times> label list \<times> label list
     \<Rightarrow> error + (match_dict \<times> label list \<times> label list)" where
  "direct_matches_loop [] st = Inr st"
| "direct_matches_loop (entry_a # rest) (matches, list_for_matching, list_to_be_matched_to) =
     (if entry_a \<in> set list_to_be_matched_to then
        (case list_remove entry_a list_for_matching of
           Inl e \<Rightarrow> Inl e
         | Inr lfm \<Rightarrow>
             (case list_remove entry_a list_to_be_matched_to of
                Inl e \<Rightarrow> Inl e
              | Inr ltbmt \<Rightarrow>
                  direct_matches_loop rest (AList.update entry_a (Single entry_a) matches, lfm, ltbmt)))
      else direct_matches_loop rest (matches, list_for_matching, list_to_be_matched_to))"

definition find_direct_matches ::
  "label list \<Rightarrow> label list \<Rightarrow> error + (match_dict \<times> label list \<times> label list)" where
  "find_direct_matches list_for_matching list_to_be_matched_to =
     direct_matches_loop list_for_matching ([], list_for_matching, list_to_be_matched_to)"

section \<open>Similarity dicts\<close>

text \<open>
  \<^verbatim>\<open>_check_for_unique_similarity\<close>: the first target of a score is stored as a string, a
  second one turns the entry into a list. (A similarity dict never holds a float; that
  case is only there to make the function total.)
\<close>

definition check_for_unique_similarity ::
  "rat \<Rightarrow> label \<Rightarrow> (rat \<times> match_value) list \<Rightarrow> (rat \<times> match_value) list" where
  "check_for_unique_similarity simi val dict_entry =
     (case map_of dict_entry simi of
        Some (Tied vs) \<Rightarrow> AList.update simi (Tied (vs @ [val])) dict_entry
      | Some (Single v) \<Rightarrow> AList.update simi (Tied [v, val]) dict_entry
      | Some (Score r) \<Rightarrow> AList.update simi (Tied [val]) dict_entry
      | None \<Rightarrow> AList.update simi (Single val) dict_entry)"

text \<open>
  \<^verbatim>\<open>most_similar[entry_a]\<close> of \<^verbatim>\<open>match_similar\<close>: the targets whose score with
  \<^verbatim>\<open>entry_a\<close> is above the limit, keyed by score. The source fills one such dict per
  entry of \<^verbatim>\<open>list_for_matching\<close>; the model computes the dict of an entry on demand.
\<close>

definition most_similar ::
  "rat \<Rightarrow> label list \<Rightarrow> label \<Rightarrow> (rat \<times> match_value) list" where
  "most_similar limit list_to_be_matched_to entry_a =
     fold (\<lambda>entry_b d.
             if limit < ratio entry_a entry_b
             then check_for_unique_similarity (ratio entry_a entry_b) entry_b d else d)
          list_to_be_matched_to []"

text \<open>\<^verbatim>\<open>sorted(list(d.keys()))[::-1]\<close>\<close>

definition ordered_keys :: "(rat \<times> 'v) list \<Rightarrow> rat list" where
  "ordered_keys d = rev (sort (map fst d))"

text \<open>
  \<^verbatim>\<open>d.setdefault(key, []).append(v)\<close>, the idiom of \<^verbatim>\<open>all_similarities\<close> and of the two
  \<^verbatim>\<open>_calculate_similarities_\<close> functions.
\<close>

definition dict_append :: "'k \<Rightarrow> 'v \<Rightarrow> ('k \<times> 'v list) list \<Rightarrow> ('k \<times> 'v list) list" where
  "dict_append key v d =
     (case map_of d key of
        None \<Rightarrow> AList.update key [v] d
      | Some vs \<Rightarrow> AList.update key (vs @ [v]) d)"

text \<open>
  The rows of the pandas \<^verbatim>\<open>DataFrame\<close> with columns \<^verbatim>\<open>similarity\<close>, \<^verbatim>\<open>entry_a\<close>,
  \<^verbatim>\<open>entry_b\<close>: one row per pair of a similarity dict, scores in descending order. After
  \<^verbatim>\<open>reset_index(drop=True)\<close> the label of a row is its position.
\<close>

type_synonym row = "rat \<times> label \<times> label"

definition similarity_rows :: "(rat \<times> (label \<times> label) list) list \<Rightarrow> row list" where
  "similarity_rows similarities =
     concat (map (\<lambda>similarity.
                    case map_of similarities similarity of
                      None \<Rightarrow> []
                    | Some pairs \<Rightarrow> map (\<lambda>(entry_a, entry_b). (similarity, entry_a, entry_b)) pairs)
                 (ordered_keys similarities))"

section \<open>The global greedy loop\<close>

text \<open>
  One pass of the \<^verbatim>\<open>while\<close> loop that \<^verbatim>\<open>match_comprehensive\<close> and the
  \<^verbatim>\<open>enforce_comprehensive_check\<close> branch of \<^verbatim>\<open>match_similar\<close> both contain. The two
  copies differ in one line: in \<^verbatim>\<open>match_comprehensive\<close> the scan that collects
  \<^verbatim>\<open>multiple_match\<close> stops after row \<^verbatim>\<open>index\<close> (\<^verbatim>\<open>if i > index: break\<close>), where
  \<^verbatim>\<open>index\<close> still holds the last value it was given by the loop over the doubled
  entries. The flag \<open>stop_at_index\<close> selects that copy.
\<close>

definition drop_entries :: "label \<Rightarrow> label \<Rightarrow> row list \<Rightarrow> row list" where
  "drop_entries entry_a entry_b df =
     filter (\<lambda>(s, a, b). b \<noteq> entry_b) (filter (\<lambda>(s, a, b). a \<noteq> entry_a) df)"

definition tied_indexes :: "row list \<Rightarrow> nat list" where
  "tied_indexes df = [0..<length (takeWhile (\<lambda>(s, a, b). s = fst (hd df)) df)]"

definition all_entries :: "row list \<Rightarrow> nat list \<Rightarrow> label list" where
  "all_entries df indexes = concat (map (\<lambda>index. [fst (snd (df ! index)), snd (snd (df ! index))]) indexes)"

definition all_entries_with_index :: "row list \<Rightarrow> nat list \<Rightarrow> label \<Rightarrow> nat list" where
  "all_entries_with_index df indexes element =
     concat (map (\<lambda>index. (if fst (snd (df ! index)) = element then [index] else [])
                         @ (if snd (snd (df ! index)) = element then [index] else [])) indexes)"

definition doubled_entries :: "label list \<Rightarrow> label list" where
  "doubled_entries entries = fold remove1 (remdups entries) entries"

fun remove_each :: "'a list \<Rightarrow> 'a list \<Rightarrow> error + 'a list" where
  "remove_each [] xs = Inr xs"
| "remove_each (y # ys) xs =
     (case list_remove y xs of Inl e \<Rightarrow> Inl e | Inr xs' \<Rightarrow> remove_each ys xs')"

fun commit_indexes :: "nat list \<Rightarrow> match_dict \<times> row list \<Rightarrow> error + (match_dict \<times> row list)" where
  "commit_indexes [] st = Inr st"
| "commit_indexes (index # rest) (match, df) =
     (if index < length df then
        (case df ! index of
           (s, entry_a, entry_b) \<Rightarrow>
             commit_indexes rest (AList.update entry_a (Single entry_b) match, drop_entries entry_a entry_b df))
      else Inl KeyError)"

definition multiple_match :: "bool \<Rightarrow> nat \<Rightarrow> row list \<Rightarrow> label list \<Rightarrow> label list" where
  "multiple_match stop_at_index index df doubled =
     concat (map (\<lambda>element.
                    map (\<lambda>(s, a, b). b)
                      (filter (\<lambda>(s, a, b). a = element)
                         (if stop_at_index then take (index + 1) df else df)))
                 doubled)"

definition comprehensive_step :: "bool \<Rightarrow> match_dict \<times> row list \<Rightarrow> error + (match_dict \<times> row list)" where
  "comprehensive_step stop_at_index st =
     (case st of (match, df) \<Rightarrow>
        (case hd df of (highest_similarity, entry_a, entry_b) \<Rightarrow>
           if 1 < length df \<and> highest_similarity \<noteq> fst (df ! 1) then
             Inr (AList.update entry_a (Single entry_b) match,
                  drop_entries entry_a entry_b (filter (\<lambda>(s, a, b). s \<noteq> highest_similarity) df))
           else
             let indexes = tied_indexes df;
                 doubled = doubled_entries (all_entries df indexes);
                 unmatchable = concat (map (all_entries_with_index df indexes) doubled)
             in (case remove_each unmatchable indexes of
                   Inl e \<Rightarrow> Inl e
                 | Inr indexes' \<Rightarrow>
                     if indexes' \<noteq> [] then commit_indexes indexes' (match, df)
                     else
                       let mm = multiple_match stop_at_index (last (indexes @ unmatchable)) df doubled
                       in Inr (if mm \<noteq> [] then AList.update entry_a (Tied mm) match else match,
                               drop_entries entry_a entry_b df))))"


lemma drop_entries_length: "length (drop_entries a b df) \<le> length df"
  by (simp add: drop_entries_def le_trans [OF length_filter_le length_filter_le])

lemma commit_indexes_length:
  "commit_indexes idxs (m, df) = Inr (m', df') \<Longrightarrow> length df' \<le> length df"
proof (induction idxs arbitrary: m df)
  case Nil
  then show ?case by simp
next
  case (Cons i idxs)
  then show ?case
    by (auto split: if_splits prod.splits dest!: Cons.IH intro: le_trans [OF _ drop_entries_length])
qed

lemma comprehensive_step_length:
  "comprehensive_step f (m, df) = Inr (m', df') \<Longrightarrow> length df' \<le> length df"
  by (auto simp: comprehensive_step_def Let_def split: prod.splits if_splits sum.splits
      dest!: commit_indexes_length intro: le_trans [OF drop_entries_length] drop_entries_length)

text \<open>
  \<^verbatim>\<open>while len(df.similarity) != 0 and len(df.similarity) != old_length\<close>. A pass never
  adds a row, so the loop stops.
\<close>

function comprehensive_loop ::
  "bool \<Rightarrow> nat \<Rightarrow> match_dict \<times> row list \<Rightarrow> error + (match_dict \<times> row list)" where
  "comprehensive_loop stop_at_index old_length (match, df) =
     (if length df \<noteq> 0 \<and> length df \<noteq> old_length then
        (case comprehensive_step stop_at_index (match, df) of
           Inl e \<Rightarrow> Inl e
         | Inr st \<Rightarrow> comprehensive_loop stop_at_index (length df) st)
      else Inr (match, df))"
  by pat_completeness auto
termination
proof (relation "measures [\<lambda>(f, old, m, df). length df,
                          \<lambda>(f, old, m, df). if length df = old then 0 else 1]")
  show "wf (measures [\<lambda>(f, old, m, df). length df,
                      \<lambda>(f, old, m :: match_dict, df :: row list). if length df = old then 0 else (1 :: nat)])"
    by simp
next
  fix stop_at_index :: bool and old_length :: nat and match :: match_dict and df :: "row list"
    and st :: "match_dict \<times> row list"
  assume "length df \<noteq> 0 \<and> length df \<noteq> old_length"
    and "comprehensive_step stop_at_index (match, df) = Inr st"
  then show "((stop_at_index, length df, st), stop_at_index, old_length, match, df)
      \<in> measures [\<lambda>(f, old, m, df). length df, \<lambda>(f, old, m, df). if length df = old then 0 else 1]"
    using comprehensive_step_length [of stop_at_index match df "fst st" "snd st"]
    by (cases st) auto
qed

declare comprehensive_loop.simps [simp del]


section \<open>match\_similar\<close>

text \<open>
  \<^verbatim>\<open>simplify_with\<close>: a false value, one of the strings \<^verbatim>\<open>"capital"\<close>,
  \<^verbatim>\<open>"separators"\<close>, \<^verbatim>\<open>"all"\<close>, or \<open>Custom\<close>: another non-empty string or list of strings.
  For \<^verbatim>\<open>"separators"\<close> and \<^verbatim>\<open>"all"\<close> the source removes the default separators; for
  every other true value it only lower-cases. The custom separators are joined to a string
  that is never used, so \<open>Custom\<close> does not carry them.
\<close>

datatype simplify_with = SimplifyFalse | Capital | Separators | All | Custom

fun simplify_lists :: "simplify_with \<Rightarrow> label list \<Rightarrow> (label \<times> label) list \<times> label list" where
  "simplify_lists Separators values =
     (let d = fold (\<lambda>entry d. AList.update (remove_separators entry) entry d) values []
      in (d, map fst d))"
| "simplify_lists All values =
     (let d = fold (\<lambda>entry d. AList.update (remove_separators entry) entry d) values []
      in (d, map fst d))"
| "simplify_lists sw values =
     (fold (\<lambda>v d. AList.update (lower v) v d) values [], map lower values)"

text \<open>
  The branch \<^verbatim>\<open>auto_match_all and not enforce_comprehensive_check\<close>. An
  \<^verbatim>\<open>IndexError\<close> (no score above the limit) is caught and the entry skipped; the
  \<^verbatim>\<open>ValueError\<close> of a \<^verbatim>\<open>remove\<close> is not caught.
\<close>

fun greedy_loop ::
  "(label \<Rightarrow> (rat \<times> match_value) list) \<Rightarrow> label list \<Rightarrow> match_dict \<times> label list \<times> label list
     \<Rightarrow> error + (match_dict \<times> label list \<times> label list)" where
  "greedy_loop ms [] st = Inr st"
| "greedy_loop ms (entry_a # rest) (match, list_for_matching, list_to_be_matched_to) =
     (case ordered_keys (ms entry_a) of
        [] \<Rightarrow> greedy_loop ms rest (match, list_for_matching, list_to_be_matched_to)
      | highest # others \<Rightarrow>
          (case map_of (ms entry_a) highest of
             None \<Rightarrow> Inl KeyError
           | Some v \<Rightarrow>
               (case list_remove entry_a list_for_matching of
                  Inl e \<Rightarrow> Inl e
                | Inr lfm \<Rightarrow>
                    (case (case v of
                             Tied most_similar_list \<Rightarrow> remove_each most_similar_list list_to_be_matched_to
                           | Single entry_b \<Rightarrow> list_remove entry_b list_to_be_matched_to
                           | Score r \<Rightarrow> Inl ValueError) of
                       Inl e \<Rightarrow> Inl e
                     | Inr ltbmt \<Rightarrow> greedy_loop ms rest (AList.update entry_a v match, lfm, ltbmt)))))"

text \<open>The rows of the \<^verbatim>\<open>DataFrame\<close> built from \<^verbatim>\<open>all_similarities\<close>.\<close>

definition all_similarities ::
  "rat \<Rightarrow> label list \<Rightarrow> label list \<Rightarrow> (rat \<times> (label \<times> label) list) list" where
  "all_similarities limit list_for_matching list_to_be_matched_to =
     fold (\<lambda>entry_a d.
             fold (\<lambda>entry_b d.
                     if limit < ratio entry_a entry_b
                     then dict_append (ratio entry_a entry_b) (entry_a, entry_b) d else d)
                  list_to_be_matched_to d)
          list_for_matching []"

subsection \<open>The console\<close>

text \<open>
  What \<^verbatim>\<open>input("match? ")\<close> returns: the empty string, a string that \<^verbatim>\<open>int()\<close>
  parses, the string \<^verbatim>\<open>"break"\<close>, or anything else. The answers still to come are a
  list; reading from the empty list is \<^verbatim>\<open>EOFError\<close>. The width of the terminal
  (\<^verbatim>\<open>stty size\<close>, or 200) and the length of Python's \<^verbatim>\<open>str\<close> of a list of strings are
  parameters.
\<close>

datatype answer = Enter | Number int | Break | Other

record console =
  window_width :: nat
  list_repr_len :: "label list \<Rightarrow> nat"

definition py_len :: "match_value \<Rightarrow> nat" where
  "py_len v = (case v of Single s \<Rightarrow> length s | Tied l \<Rightarrow> length l | Score r \<Rightarrow> 0)"

definition str_len :: "console \<Rightarrow> match_value \<Rightarrow> nat" where
  "str_len con v = (case v of Single s \<Rightarrow> length s | Tied l \<Rightarrow> list_repr_len con l | Score r \<Rightarrow> 0)"

text \<open>
  \<^verbatim>\<open>max(values, key=len)\<close> on a list that is not empty: the first of the longest values
  (a later value replaces the best one only when it is strictly longer).
\<close>

definition max_by_len :: "match_value list \<Rightarrow> match_value" where
  "max_by_len vs = fold (\<lambda>x best. if py_len best < py_len x then x else best) (tl vs) (hd vs)"

text \<open>Subscripting a sequence with the integer an answer was parsed to.\<close>

definition py_index :: "'a list \<Rightarrow> int \<Rightarrow> error + 'a" where
  "py_index xs i =
     (if 0 \<le> i \<and> i < int (length xs) then Inr (xs ! nat i)
      else if i < 0 \<and> - int (length xs) \<le> i then Inr (xs ! nat (int (length xs) + i))
      else Inl IndexError)"

definition is_list :: "match_value \<Rightarrow> bool" where
  "is_list v = (case v of Tied l \<Rightarrow> True | _ \<Rightarrow> False)"

definition number_to_show :: "console \<Rightarrow> label \<Rightarrow> (rat \<times> match_value) list \<Rightarrow> nat" where
  "number_to_show con entry_a d =
     (let largest_string = str_len con (max_by_len (map snd d @ [Single entry_a]));
          minimal_string = 13;
          max_number_to_show = min (window_width con div (largest_string + 3))
                                   (window_width con div minimal_string)
      in if max_number_to_show < length d then max_number_to_show else length d)"

text \<open>
  The prompts one by one after an answer that is not a number: the generator prints
  candidate \<^verbatim>\<open>n + number_to_show\<close> (an \<^verbatim>\<open>IndexError\<close> there ends the loop and is
  caught), and every answer other than the empty string increments
  \<^verbatim>\<open>number_to_show\<close>.
\<close>

fun further_prompts ::
  "(rat \<times> match_value) list \<Rightarrow> rat list \<Rightarrow> nat list \<Rightarrow> nat \<Rightarrow> answer list
     \<Rightarrow> error + (match_value option \<times> answer list)" where
  "further_prompts d oms [] shown answers = Inr (None, answers)"
| "further_prompts d oms (n # ns) shown answers =
     (if length oms \<le> n + shown then Inr (None, answers)
      else (case answers of
              [] \<Rightarrow> Inl EOFError
            | result # answers' \<Rightarrow>
                if result = Enter then
                  (case map_of d (oms ! shown) of
                     None \<Rightarrow> Inl KeyError
                   | Some v \<Rightarrow> Inr (Some v, answers'))
                else further_prompts d oms ns (shown + 1) answers'))"

text \<open>
  The table and the first prompt for one entry. Formatting a list with
  \<^verbatim>\<open>"{:>{}}"\<close> raises \<^verbatim>\<open>TypeError\<close>, so a tie among the candidates shown ends the call.
\<close>

definition ask :: "console \<Rightarrow> label \<Rightarrow> (rat \<times> match_value) list \<Rightarrow> answer list
     \<Rightarrow> error + (match_value option \<times> answer list)" where
  "ask con entry_a d answers =
     (let oms = ordered_keys d;
          shown = number_to_show con entry_a d
      in if \<exists>n < shown. case map_of d (oms ! n) of Some v \<Rightarrow> is_list v | None \<Rightarrow> False
         then Inl TypeError
         else (case answers of
                 [] \<Rightarrow> Inl EOFError
               | answer # answers' \<Rightarrow>
                   (case answer of
                      Enter \<Rightarrow>
                        (case map_of d (oms ! 0) of
                           None \<Rightarrow> Inl KeyError
                         | Some v \<Rightarrow> Inr (Some v, answers'))
                    | Number i \<Rightarrow>
                        (case py_index oms i of
                           Inl e \<Rightarrow> Inl e
                         | Inr key \<Rightarrow>
                             (case map_of d key of
                                None \<Rightarrow> Inl KeyError
                              | Some v \<Rightarrow> Inr (Some v, answers')))
                    | _ \<Rightarrow> further_prompts d oms [0..<length oms] shown answers')))"

definition auto_accept :: "rat \<Rightarrow> rat list \<Rightarrow> bool" where
  "auto_accept minimal_distance oms \<longleftrightarrow>
     (length oms = 1 \<and> 1 - minimal_distance < oms ! 0)
     \<or> (1 < length oms \<and> minimal_distance < oms ! 0 - oms ! 1)"

text \<open>
  One pass of the loop of the interactive branch, for an entry with the similarity dict
  \<open>d\<close>: nothing happens when the dict is empty; otherwise the best group is taken
  without a question when the distance rule allows it, and the console is asked when
  the entry is still not a key of \<^verbatim>\<open>match\<close>.
\<close>

definition interactive_entry ::
  "console \<Rightarrow> rat \<Rightarrow> (rat \<times> match_value) list \<Rightarrow> label \<Rightarrow> match_dict \<times> answer list
     \<Rightarrow> error + (match_dict \<times> answer list)" where
  "interactive_entry con minimal_distance d entry_a st =
     (case st of (match, answers) \<Rightarrow>
        let oms = ordered_keys d;
            match1 = (if d \<noteq> [] \<and> auto_accept minimal_distance oms
                      then (case map_of d (oms ! 0) of
                              Some v \<Rightarrow> AList.update entry_a v match | None \<Rightarrow> match)
                      else match)
        in if d \<noteq> [] \<and> map_of match1 entry_a = None
           then (case ask con entry_a d answers of
                   Inl e \<Rightarrow> Inl e
                 | Inr (Some v, answers') \<Rightarrow> Inr (AList.update entry_a v match1, answers')
                 | Inr (None, answers') \<Rightarrow> Inr (match1, answers'))
           else Inr (match1, answers))"

fun interactive_loop ::
  "console \<Rightarrow> rat \<Rightarrow> (label \<Rightarrow> (rat \<times> match_value) list) \<Rightarrow> label list
     \<Rightarrow> match_dict \<times> label list \<times> answer list \<Rightarrow> error + (match_dict \<times> label list \<times> answer list)" where
  "interactive_loop con minimal_distance ms [] st = Inr st"
| "interactive_loop con minimal_distance ms (entry_a # rest) (match, no_match, answers) =
     (case interactive_entry con minimal_distance (ms entry_a) entry_a (match, answers) of
        Inl e \<Rightarrow> Inl e
      | Inr (match2, answers2) \<Rightarrow>
          interactive_loop con minimal_distance ms rest
            (match2,
             if map_of match2 entry_a = None then no_match @ [entry_a] else no_match,
             answers2))"

text \<open>
  Translating back: \<^verbatim>\<open>{dict_for_matching[key]: dict_to_be_matched_to[match[key]] ...}\<close>.
  A list as a key of \<^verbatim>\<open>dict_to_be_matched_to\<close> is a \<^verbatim>\<open>TypeError\<close> (unhashable), a
  float is a key that is not there.
\<close>

fun translate_back ::
  "(label \<times> label) list \<Rightarrow> (label \<times> label) list \<Rightarrow> match_dict \<Rightarrow> match_dict \<Rightarrow> error + match_dict" where
  "translate_back dict_for_matching dict_to_be_matched_to [] acc = Inr acc"
| "translate_back dict_for_matching dict_to_be_matched_to ((key, v) # rest) acc =
     (case map_of dict_for_matching key of
        None \<Rightarrow> Inl KeyError
      | Some original_key \<Rightarrow>
          (case v of
             Tied l \<Rightarrow> Inl TypeError
           | Score r \<Rightarrow> Inl KeyError
           | Single b \<Rightarrow>
               (case map_of dict_to_be_matched_to b of
                  None \<Rightarrow> Inl KeyError
                | Some original_value \<Rightarrow>
                    translate_back dict_for_matching dict_to_be_matched_to rest
                      (AList.update original_key (Single original_value) acc))))"

fun translate_no_match :: "(label \<times> label) list \<Rightarrow> label list \<Rightarrow> error + label set" where
  "translate_no_match dict_for_matching [] = Inr {}"
| "translate_no_match dict_for_matching (key # rest) =
     (case map_of dict_for_matching key of
        None \<Rightarrow> Inl KeyError
      | Some original \<Rightarrow>
          (case translate_no_match dict_for_matching rest of
             Inl e \<Rightarrow> Inl e
           | Inr s \<Rightarrow> Inr (insert original s)))"

text \<open>
  The part of \<^verbatim>\<open>match_similar\<close> after the simplification: it works on the two lists
  in place and returns \<^verbatim>\<open>match\<close>, the elements of \<^verbatim>\<open>no_match\<close> (as a list without
  repetition) and the two lists as they are left.
\<close>

definition match_similar_core ::
  "console \<Rightarrow> answer list \<Rightarrow> label list \<Rightarrow> label list \<Rightarrow> bool \<Rightarrow> bool \<Rightarrow> rat \<Rightarrow> rat
     \<Rightarrow> error + (match_dict \<times> label list \<times> label list \<times> label list)" where
  "match_similar_core con answers list_for_matching list_to_be_matched_to
       auto_match_all enforce_comprehensive_check minimal_distance limit =
     (case direct_matches_loop list_for_matching ([], list_for_matching, list_to_be_matched_to) of
        Inl e \<Rightarrow> Inl e
      | Inr (match, lfm, ltbmt) \<Rightarrow>
          if auto_match_all then
            if \<not> enforce_comprehensive_check then
              (case greedy_loop (most_similar limit ltbmt) lfm (match, lfm, ltbmt) of
                 Inl e \<Rightarrow> Inl e
               | Inr (match', lfm', ltbmt') \<Rightarrow>
                   Inr (match', filter (\<lambda>x. map_of match' x = None) (remdups lfm'), lfm', ltbmt'))
            else
              (case comprehensive_loop False 0
                      (match, similarity_rows (all_similarities limit lfm ltbmt)) of
                 Inl e \<Rightarrow> Inl e
               | Inr (match', df) \<Rightarrow>
                   Inr (match', filter (\<lambda>x. map_of match' x = None) (remdups lfm), lfm, ltbmt))
          else
            (case interactive_loop con minimal_distance (most_similar limit ltbmt) lfm
                    (match, [], answers) of
               Inl e \<Rightarrow> Inl e
             | Inr (match', no_match, answers') \<Rightarrow> Inr (match', no_match, lfm, ltbmt)))"

definition match_similar ::
  "console \<Rightarrow> answer list \<Rightarrow> label list \<Rightarrow> label list \<Rightarrow> simplify_with \<Rightarrow> bool \<Rightarrow> bool \<Rightarrow> bool
     \<Rightarrow> rat \<Rightarrow> rat \<Rightarrow> error + (match_dict \<times> label set \<times> label list \<times> label list)" where
  "match_similar con answers list_for_matching list_to_be_matched_to simplify_with
       auto_match_all single_match_only enforce_comprehensive_check minimal_distance limit =
     (if card (set list_for_matching) \<noteq> length list_for_matching then Inl MultipleSameValue
      else if \<not> single_match_only then Inl TypeError
      else if card (set list_to_be_matched_to) \<noteq> length list_to_be_matched_to then Inl MultipleSameValue
      else if simplify_with = SimplifyFalse then
        (case match_similar_core con answers list_for_matching list_to_be_matched_to
                auto_match_all enforce_comprehensive_check minimal_distance limit of
           Inl e \<Rightarrow> Inl e
         | Inr (match, no_match, lfm, ltbmt) \<Rightarrow> Inr (match, set no_match, lfm, ltbmt))
      else
        (case simplify_lists simplify_with list_for_matching of
           (dict_for_matching, lfm0) \<Rightarrow>
        (case simplify_lists simplify_with list_to_be_matched_to of
           (dict_to_be_matched_to, ltbmt0) \<Rightarrow>
        (case match_similar_core con answers lfm0 ltbmt0
                auto_match_all enforce_comprehensive_check minimal_distance limit of
           Inl e \<Rightarrow> Inl e
         | Inr (match, no_match, lfm, ltbmt) \<Rightarrow>
             (case translate_back dict_for_matching dict_to_be_matched_to match [] of
                Inl e \<Rightarrow> Inl e
              | Inr match' \<Rightarrow>
                  (case translate_no_match dict_for_matching no_match of
                     Inl e \<Rightarrow> Inl e
                   | Inr no_match' \<Rightarrow>
                       Inr (match', no_match', list_for_matching, list_to_be_matched_to)))))))"


section \<open>match\_comprehensive\<close>

text \<open>
  \<^verbatim>\<open>_calculate_similarities_listed_by_similarity\<close> keeps every pair of the two lists,
  whatever its score: \<^verbatim>\<open>match_comprehensive\<close> has no similarity limit.
\<close>

definition similarities_by_similarity ::
  "label list \<Rightarrow> label list \<Rightarrow> (rat \<times> (label \<times> label) list) list" where
  "similarities_by_similarity list_for_matching list_to_be_matched_to =
     fold (\<lambda>entry_a d.
             fold (\<lambda>entry_b d. dict_append (ratio entry_a entry_b) (entry_a, entry_b) d)
                  list_to_be_matched_to d)
          list_for_matching []"

definition match_comprehensive_core ::
  "label list \<Rightarrow> label list \<Rightarrow> error + (match_dict \<times> label list \<times> label list \<times> label list)" where
  "match_comprehensive_core list_for_matching list_to_be_matched_to =
     (case find_direct_matches list_for_matching list_to_be_matched_to of
        Inl e \<Rightarrow> Inl e
      | Inr (match, lfm, ltbmt) \<Rightarrow>
          (case comprehensive_loop True 0 (match, similarity_rows (similarities_by_similarity lfm ltbmt)) of
             Inl e \<Rightarrow> Inl e
           | Inr (match', df) \<Rightarrow>
               Inr (match', filter (\<lambda>x. map_of match' x = None) (remdups lfm), lfm, ltbmt)))"

definition match_comprehensive ::
  "label list \<Rightarrow> label list \<Rightarrow> simplifier
     \<Rightarrow> error + (match_dict \<times> label set \<times> label list \<times> label list)" where
  "match_comprehensive list_for_matching list_to_be_matched_to simplified =
     (case check_uniqueness_of_entries list_for_matching of
        Inl e \<Rightarrow> Inl e
      | Inr u1 \<Rightarrow>
     (case check_uniqueness_of_entries list_to_be_matched_to of
        Inl e \<Rightarrow> Inl e
      | Inr u2 \<Rightarrow>
     if is_set simplified then
       (case simplify_strings list_for_matching True simplified of
          Inl e \<Rightarrow> Inl e
        | Inr dict_for_matching \<Rightarrow>
       (case check_uniqueness_of_entries (map fst dict_for_matching) of
          Inl e \<Rightarrow> Inl e
        | Inr u3 \<Rightarrow>
       (case simplify_strings list_to_be_matched_to True simplified of
          Inl e \<Rightarrow> Inl e
        | Inr dict_to_be_matched_to \<Rightarrow>
       (case check_uniqueness_of_entries (map fst dict_to_be_matched_to) of
          Inl e \<Rightarrow> Inl e
        | Inr u4 \<Rightarrow>
       (case match_comprehensive_core (map fst dict_for_matching) (map fst dict_to_be_matched_to) of
          Inl e \<Rightarrow> Inl e
        | Inr (match, no_match, lfm, ltbmt) \<Rightarrow>
       (case translate_back dict_for_matching dict_to_be_matched_to match [] of
          Inl e \<Rightarrow> Inl e
        | Inr match' \<Rightarrow>
       (case translate_no_match dict_for_matching no_match of
          Inl e \<Rightarrow> Inl e
        | Inr no_match' \<Rightarrow>
            Inr (match', no_match', list_for_matching, list_to_be_matched_to))))))))
     else
       (case match_comprehensive_core list_for_matching list_to_be_matched_to of
          Inl e \<Rightarrow> Inl e
        | Inr (match, no_match, lfm, ltbmt) \<Rightarrow> Inr (match, set no_match, lfm, ltbmt))))"


section \<open>match\_similar\_with\_manual\_selection\<close>

text \<open>
  \<^verbatim>\<open>_calculate_similarities_listed_by_list_for_matching_entry\<close>, for one entry: every
  target of the list, grouped by score, scores in descending order. The argument
  \<^verbatim>\<open>similarity_limit_for_manual_checking\<close> of the function is only used in a log message
  that is never reached and is left out.
\<close>

definition similarities_by_entry :: "label list \<Rightarrow> label \<Rightarrow> (rat \<times> label list) list" where
  "similarities_by_entry list_to_be_matched_to entry_a =
     (let d = fold (\<lambda>entry_b d. dict_append (ratio entry_a entry_b) entry_b d) list_to_be_matched_to []
      in map (\<lambda>similarity. (similarity, case map_of d similarity of Some bs \<Rightarrow> bs | None \<Rightarrow> []))
             (ordered_keys d))"

definition decreasing_matches :: "(rat \<times> label list) list \<Rightarrow> (rat \<times> label) list" where
  "decreasing_matches sims = concat (map (\<lambda>(similarity, bs). map (\<lambda>entry_b. (similarity, entry_b)) bs) sims)"

definition manual_number_to_show :: "console \<Rightarrow> label \<Rightarrow> (rat \<times> label) list \<Rightarrow> nat" where
  "manual_number_to_show con entry_a dm =
     (let longest_string = fold max (map (\<lambda>(s, b). length b) dm) 0 + length entry_a;
          minimal_string = 13;
          max_number_to_show = min (window_width con div (longest_string + 3))
                                   (window_width con div minimal_string)
      in if max_number_to_show < length dm then max_number_to_show else length dm)"

text \<open>
  \<^verbatim>\<open>further_print_statements\<close>: here \<^verbatim>\<open>number_to_show\<close> does not change; the empty
  answer takes candidate \<^verbatim>\<open>number_to_show\<close>, \<^verbatim>\<open>"break"\<close> stops.
\<close>

fun further_print_statements ::
  "(rat \<times> label) list \<Rightarrow> nat list \<Rightarrow> nat \<Rightarrow> answer list
     \<Rightarrow> error + (match_value option \<times> answer list)" where
  "further_print_statements dm [] shown answers = Inr (None, answers)"
| "further_print_statements dm (n # ns) shown answers =
     (if length dm \<le> n + shown then Inr (None, answers)
      else (case answers of
              [] \<Rightarrow> Inl EOFError
            | result # answers' \<Rightarrow>
                if result = Enter then Inr (Some (Single (snd (dm ! shown))), answers')
                else if result = Break then Inr (None, answers')
                else further_print_statements dm ns shown answers'))"

text \<open>
  The prompt for one entry. \<^verbatim>\<open>decreasing_matches[0][int(answer)]\<close> indexes the pair
  \<^verbatim>\<open>(similarity, entry_b)\<close> of the best candidate: 0 is the score, 1 the label.
\<close>

definition manual_ask ::
  "console \<Rightarrow> label \<Rightarrow> (rat \<times> label list) list \<Rightarrow> answer list
     \<Rightarrow> error + (match_value option \<times> answer list)" where
  "manual_ask con entry_a sims answers =
     (let dm = decreasing_matches sims;
          shown = manual_number_to_show con entry_a dm
      in (case answers of
            [] \<Rightarrow> Inl EOFError
          | answer # answers' \<Rightarrow>
              (case answer of
                 Enter \<Rightarrow> Inr (Some (Single (snd (dm ! 0))), answers')
               | Break \<Rightarrow> Inr (None, answers')
               | Number i \<Rightarrow>
                   (case py_index [Score (fst (dm ! 0)), Single (snd (dm ! 0))] i of
                      Inl e \<Rightarrow> Inl e
                    | Inr v \<Rightarrow> Inr (Some v, answers'))
               | Other \<Rightarrow> further_print_statements dm [0..<length dm] shown answers')))"

text \<open>
  One pass of the loop over \<^verbatim>\<open>similarities\<close>. With a single score the source puts the
  integer 1 in front of the list of scores; \<^verbatim>\<open>similarities_of_entry_a[0]\<close> on an empty
  list is an \<^verbatim>\<open>IndexError\<close>, and \<^verbatim>\<open>similarities[entry_a][...]\<close> for a score that is
  not a key is a \<^verbatim>\<open>KeyError\<close>; neither is caught.
\<close>

definition manual_entry ::
  "console \<Rightarrow> rat \<Rightarrow> label list \<Rightarrow> label \<Rightarrow> match_dict \<times> answer list
     \<Rightarrow> error + (match_dict \<times> answer list)" where
  "manual_entry con minimal_distance list_to_be_matched_to entry_a st =
     (case st of (match, answers) \<Rightarrow>
        let sims = similarities_by_entry list_to_be_matched_to entry_a;
            scores = map fst sims;
            similarities_of_entry_a = (if length scores = 1 then 1 # scores else scores);
            prompt = (case manual_ask con entry_a sims answers of
                        Inl e \<Rightarrow> Inl e
                      | Inr (Some v, answers') \<Rightarrow> Inr (AList.update entry_a v match, answers')
                      | Inr (None, answers') \<Rightarrow> Inr (match, answers'))
        in if similarities_of_entry_a = [] then Inl IndexError
           else if \<not> minimal_distance < similarities_of_entry_a ! 0 - similarities_of_entry_a ! 1
           then prompt
           else (case map_of sims (similarities_of_entry_a ! 0) of
                   None \<Rightarrow> Inl KeyError
                 | Some targets \<Rightarrow>
                     if length targets \<noteq> 1 then prompt
                     else Inr (AList.update entry_a (Single (last targets)) match, answers)))"

fun manual_loop ::
  "console \<Rightarrow> rat \<Rightarrow> label list \<Rightarrow> label list \<Rightarrow> match_dict \<times> answer list
     \<Rightarrow> error + (match_dict \<times> answer list)" where
  "manual_loop con minimal_distance list_to_be_matched_to [] st = Inr st"
| "manual_loop con minimal_distance list_to_be_matched_to (entry_a # rest) st =
     (case manual_entry con minimal_distance list_to_be_matched_to entry_a st of
        Inl e \<Rightarrow> Inl e
      | Inr st' \<Rightarrow> manual_loop con minimal_distance list_to_be_matched_to rest st')"

definition manual_selection_core ::
  "console \<Rightarrow> answer list \<Rightarrow> label list \<Rightarrow> label list \<Rightarrow> rat
     \<Rightarrow> error + (match_dict \<times> label list \<times> label list \<times> label list)" where
  "manual_selection_core con answers list_for_matching list_to_be_matched_to minimal_distance =
     (case find_direct_matches list_for_matching list_to_be_matched_to of
        Inl e \<Rightarrow> Inl e
      | Inr (match, lfm, ltbmt) \<Rightarrow>
          (case manual_loop con minimal_distance ltbmt lfm (match, answers) of
             Inl e \<Rightarrow> Inl e
           | Inr (match', answers') \<Rightarrow>
               Inr (match', filter (\<lambda>x. map_of match' x = None) (remdups lfm), lfm, ltbmt)))"

definition match_similar_with_manual_selection ::
  "console \<Rightarrow> answer list \<Rightarrow> label list \<Rightarrow> label list \<Rightarrow> simplifier \<Rightarrow> rat
     \<Rightarrow> error + (match_dict \<times> label set \<times> label list \<times> label list)" where
  "match_similar_with_manual_selection con answers list_for_matching list_to_be_matched_to
       simplified minimal_distance =
     (case check_uniqueness_of_entries list_for_matching of
        Inl e \<Rightarrow> Inl e
      | Inr u1 \<Rightarrow>
     (case check_uniqueness_of_entries list_to_be_matched_to of
        Inl e \<Rightarrow> Inl e
      | Inr u2 \<Rightarrow>
     if is_set simplified then
       (case simplify_strings list_for_matching True simplified of
          Inl e \<Rightarrow> Inl e
        | Inr dict_for_matching \<Rightarrow>
       (case check_uniqueness_of_entries (map fst dict_for_matching) of
          Inl e \<Rightarrow> Inl e
        | Inr u3 \<Rightarrow>
       (case simplify_strings list_to_be_matched_to True simplified of
          Inl e \<Rightarrow> Inl e
        | Inr dict_to_be_matched_to \<Rightarrow>
       (case check_uniqueness_of_entries (map fst dict_to_be_matched_to) of
          Inl e \<Rightarrow> Inl e
        | Inr u4 \<Rightarrow>
       (case manual_selection_core con answers (map fst dict_for_matching)
               (map fst dict_to_be_matched_to) minimal_distance of
          Inl e \<Rightarrow> Inl e
        | Inr (match, no_match, lfm, ltbmt) \<Rightarrow>
       (case translate_back dict_for_matching dict_to_be_matched_to match [] of
          Inl e \<Rightarrow> Inl e
        | Inr match' \<Rightarrow>
       (case translate_no_match dict_for_matching no_match of
          Inl e \<Rightarrow> Inl e
        | Inr no_match' \<Rightarrow>
            Inr (match', no_match', list_for_matching, list_to_be_matched_to))))))))
     else
       (case manual_selection_core con answers list_for_matching list_to_be_matched_to
               minimal_distance of
          Inl e \<Rightarrow> Inl e
        | Inr (match, no_match, lfm, ltbmt) \<Rightarrow> Inr (match, set no_match, lfm, ltbmt))))"


section \<open>Score groups\<close>

text \<open>
  The words of the specification about candidates: the targets of a pool that have a
  given score with a source label and lie above the limit, and the group of targets with
  the highest such score. \<open>group_value\<close> is how \<^verbatim>\<open>_check_for_unique_similarity\<close> stores
  a group: nothing, a string, or a list of two or more.
\<close>


definition score_group :: "rat \<Rightarrow> label \<Rightarrow> label list \<Rightarrow> rat \<Rightarrow> label list" where
  "score_group limit a pool s = filter (\<lambda>b. limit < ratio a b \<and> ratio a b = s) pool"

definition group_value :: "label list \<Rightarrow> match_value option" where
  "group_value bs = (case bs of [] \<Rightarrow> None | [b] \<Rightarrow> Some (Single b) | b # c # cs \<Rightarrow> Some (Tied bs))"


definition top_group :: "rat \<Rightarrow> label list \<Rightarrow> label \<Rightarrow> label list" where
  "top_group limit pool a =
     filter (\<lambda>b. limit < ratio a b \<and> (\<forall>c \<in> set pool. limit < ratio a c \<longrightarrow> ratio a c \<le> ratio a b)) pool"

definition top_value :: "(rat \<times> match_value) list \<Rightarrow> match_value option" where
  "top_value d = (case ordered_keys d of [] \<Rightarrow> None | k # ks \<Rightarrow> map_of d k)"

text \<open>The two pools that are left when the direct matches have been taken out.\<close>

definition source_pool :: "label list \<Rightarrow> label list \<Rightarrow> label list" where
  "source_pool list_for_matching list_to_be_matched_to =
     filter (\<lambda>x. x \<notin> set list_to_be_matched_to) list_for_matching"

definition target_pool :: "label list \<Rightarrow> label list \<Rightarrow> label list" where
  "target_pool list_for_matching list_to_be_matched_to =
     filter (\<lambda>x. x \<notin> set list_for_matching) list_to_be_matched_to"

text \<open>No target is the single match of two source labels.\<close>

definition single_unique :: "match_dict \<Rightarrow> bool" where
  "single_unique m \<longleftrightarrow>
     (\<forall>a a' b. map_of m a = Some (Single b) \<and> map_of m a' = Some (Single b) \<longrightarrow> a = a')"

section \<open>Devices for the score\<close>

text \<open>
  Not part of the program: the total size of a list of blocks, and the quantities that
  describe \<^verbatim>\<open>find_longest_match\<close> when a string is compared with itself. \<open>run_len a i\<close> is
  the number of consecutive characters before position \<open>i\<close> that are not popular; it is the
  length the inner loop has reached on the diagonal. \<open>row_entry\<close> and \<open>row_best\<close> are the two
  updates of one pass of the inner loop.
\<close>

definition sizes :: "block list \<Rightarrow> nat" where
  "sizes bl = sum_list (map (\<lambda>(i, j, k). k) bl)"


fun run_len :: "string \<Rightarrow> nat \<Rightarrow> nat" where
  "run_len a 0 = 0"
| "run_len a (Suc i) = (if popular a (a ! i) then 0 else run_len a i + 1)"

definition diag_j2len :: "string \<Rightarrow> nat \<Rightarrow> (nat \<rightharpoonup> nat) \<Rightarrow> bool" where
  "diag_j2len a i j2len \<longleftrightarrow>
     (\<forall>j v. j2len j = Some v \<longrightarrow> v \<le> run_len a (Suc j) \<and> v \<le> run_len a i)
     \<and> j2lenget j2len i = run_len a i"

definition diag_best :: "string \<Rightarrow> nat \<Rightarrow> block \<Rightarrow> bool" where
  "diag_best a i best \<longleftrightarrow> (case best of (bi, bj, bs) \<Rightarrow> bi = bj \<and> (\<forall>j<i. run_len a (Suc j) \<le> bs))"

definition row_entry :: "(nat \<rightharpoonup> nat) \<Rightarrow> nat \<Rightarrow> nat" where
  "row_entry j2len j = j2lenget j2len j + 1"

definition row_best :: "nat \<Rightarrow> (nat \<rightharpoonup> nat) \<Rightarrow> nat \<Rightarrow> block \<Rightarrow> block" where
  "row_best i j2len j best =
     (case best of (bi, bj, bs) \<Rightarrow>
        if bs < row_entry j2len j then (i + 1 - row_entry j2len j, j + 1 - row_entry j2len j, row_entry j2len j)
        else (bi, bj, bs))"


section \<open>Collisions of the normalizer\<close>



definition simplify_inv :: "(label \<Rightarrow> label) \<Rightarrow> label set \<Rightarrow> (label \<times> label) list \<times> label set \<Rightarrow> bool" where
  "simplify_inv f D st \<longleftrightarrow>
     (case st of (simplified, not_unique) \<Rightarrow>
        (\<forall>k v. map_of simplified k = Some v \<longrightarrow> v \<in> D \<and> f v = k) \<and>
        (\<forall>x\<in>D. map_of simplified (f x) \<noteq> None) \<and>
        not_unique \<subseteq> D \<and>
        (\<forall>x\<in>D. \<forall>y\<in>D. y \<noteq> x \<and> f y = f x \<longrightarrow> x \<in> not_unique))"

lemma add_to_simplified_inv:
  assumes "simplify_inv f D st"
  shows "simplify_inv f (insert key D) (add_to_simplified (f key) key st)"
proof -
  obtain simplified not_unique where st: "st = (simplified, not_unique)" by (cases st) auto
  show ?thesis
  proof (cases "map_of simplified (f key)")
    case None
    with assms st show ?thesis
      by (auto simp: simplify_inv_def add_to_simplified_def update_conv')
  next
    case (Some v)
    from assms st Some have v: "v \<in> D" "f v = f key"
      by (auto simp: simplify_inv_def)
    have "x \<in> insert key (insert v not_unique)"
      if "x \<in> insert key D" "y \<in> insert key D" "y \<noteq> x" "f y = f x" for x y
    proof (cases "x = key \<or> x = v")
      case True
      then show ?thesis by auto
    next
      case False
      with that have "x \<in> D" by simp
      moreover have "\<exists>w\<in>D. w \<noteq> x \<and> f w = f x"
        using that False v by (cases "y = key") auto
      ultimately show ?thesis using assms st by (auto simp: simplify_inv_def)
    qed
    with assms st Some v show ?thesis
      by (auto simp: simplify_inv_def add_to_simplified_def)
  qed
qed

lemma simplify_loop_inv:
  assumes "simplify_inv f D st" and "\<And>key. simplified_key lower_case simplifier key = Inr (f key)"
  shows "\<exists>st'. simplify_loop lower_case simplifier xs st = Inr st' \<and> simplify_inv f (D \<union> set xs) st'"
  using assms(1)
proof (induction xs arbitrary: D st)
  case Nil
  then show ?case by simp
next
  case (Cons key rest)
  from add_to_simplified_inv [OF Cons.prems]
  have "simplify_inv f (insert key D) (add_to_simplified (f key) key st)" .
  from Cons.IH [OF this] show ?case by (simp add: assms(2))
qed


section \<open>Translating back to the original labels\<close>


lemma ran_update_subset: "ran (map_of (AList.update k v al)) \<subseteq> insert v (ran (map_of al))"
  by (auto simp: update_conv' ran_def)

lemma keys_dom: "fst ` set m = dom (map_of m)"
  by (simp add: dom_map_of_conv_image_fst)

lemma translate_back_keys:
  "translate_back d1 d2 m acc = Inr m' \<Longrightarrow> dom (map_of m') \<subseteq> dom (map_of acc) \<union> ran (map_of d1)"
proof (induction m arbitrary: acc)
  case Nil
  then show ?case by simp
next
  case (Cons kv m)
  obtain key v where kv: "kv = (key, v)" by (cases kv) auto
  from Cons.prems kv obtain ok b ov where
    ok: "map_of d1 key = Some ok" and "v = Single b" and "map_of d2 b = Some ov"
    and rest: "translate_back d1 d2 m (AList.update ok (Single ov) acc) = Inr m'"
    by (auto split: option.splits match_value.splits)
  have "dom (map_of (AList.update ok (Single ov) acc)) = insert ok (dom (map_of acc))"
    using dom_update [of ok "Single ov" acc] by (simp add: keys_dom)
  with Cons.IH [OF rest] have "dom (map_of m') \<subseteq> insert ok (dom (map_of acc)) \<union> ran (map_of d1)"
    by simp
  moreover from ok have "ok \<in> ran (map_of d1)" by (auto simp: ran_def)
  ultimately show ?case by auto
qed

lemma translate_no_match_sub:
  "translate_no_match d1 nm = Inr s \<Longrightarrow> s \<subseteq> ran (map_of d1)"
  by (induction nm arbitrary: s) (auto split: option.splits sum.splits simp: ran_def)

lemma fold_update_ran:
  "ran (map_of (fold (\<lambda>v d. AList.update (f v) v d) xs d0)) \<subseteq> ran (map_of d0) \<union> set xs"
proof (induction xs arbitrary: d0)
  case Nil
  then show ?case by simp
next
  case (Cons x xs)
  from Cons.IH [of "AList.update (f x) x d0"] ran_update_subset [of "f x" x d0]
  show ?case by auto
qed

lemma simplify_lists_ran: "simplify_lists sw xs = (d, l) \<Longrightarrow> ran (map_of d) \<subseteq> set xs"
  using fold_update_ran [of remove_separators xs "[]"] fold_update_ran [of lower xs "[]"]
  by (cases sw) (auto simp: Let_def)

lemma simplify_loop_ran:
  "simplify_loop lc s xs (d0, n0) = Inr (d, n) \<Longrightarrow> ran (map_of d) \<subseteq> ran (map_of d0) \<union> set xs"
proof (induction xs arbitrary: d0 n0)
  case Nil
  then show ?case by simp
next
  case (Cons x xs)
  from Cons.prems obtain k where k: "simplified_key lc s x = Inr k"
    and rest: "simplify_loop lc s xs (add_to_simplified k x (d0, n0)) = Inr (d, n)"
    by (auto split: sum.splits)
  obtain d1 n1 where st: "add_to_simplified k x (d0, n0) = (d1, n1)"
    by (cases "add_to_simplified k x (d0, n0)") auto
  then have "ran (map_of d1) \<subseteq> insert x (ran (map_of d0))"
    using ran_update_subset [of k x d0]
    by (auto simp: add_to_simplified_def split: option.splits)
  with Cons.IH [of d1 n1] rest st show ?case by auto
qed

lemma simplify_strings_ran: "simplify_strings xs lc s = Inr d \<Longrightarrow> ran (map_of d) \<subseteq> set xs"
  using simplify_loop_ran [of lc s xs "[]" "{}"]
  by (auto simp: simplify_strings_def split: sum.splits if_splits prod.splits)


section \<open>Properties of the shared loops\<close>


lemma list_remove_distinct:
  "distinct xs \<Longrightarrow> list_remove x xs = Inr xs' \<Longrightarrow> xs' = filter (\<lambda>y. y \<noteq> x) xs \<and> x \<in> set xs"
  by (auto simp: list_remove_def distinct_remove1_removeAll removeAll_filter_not_eq split: if_splits
      intro: filter_cong)

lemma list_remove_in: "x \<in> set xs \<Longrightarrow> list_remove x xs = Inr (remove1 x xs)"
  by (simp add: list_remove_def)

lemma remove_each_distinct:
  "distinct xs \<Longrightarrow> remove_each ys xs = Inr xs' \<Longrightarrow>
     xs' = filter (\<lambda>y. y \<notin> set ys) xs \<and> set ys \<subseteq> set xs"
proof (induction ys arbitrary: xs)
  case Nil
  then show ?case by simp
next
  case (Cons y ys)
  from Cons.prems obtain xs1 where r: "list_remove y xs = Inr xs1" and rest: "remove_each ys xs1 = Inr xs'"
    by (auto split: sum.splits)
  from list_remove_distinct [OF Cons.prems(1) r] have xs1: "xs1 = filter (\<lambda>z. z \<noteq> y) xs" and y: "y \<in> set xs"
    by auto
  with Cons.prems(1) have "distinct xs1" by simp
  from Cons.IH [OF this rest] xs1 y show ?case by (auto intro: filter_cong)
qed

lemma direct_matches_loop_distinct:
  assumes "distinct rest" and "distinct l1" and "distinct l2" and "set rest \<subseteq> set l1"
  shows "\<exists>m'. direct_matches_loop rest (m, l1, l2)
           = Inr (m', filter (\<lambda>x. \<not> (x \<in> set rest \<and> x \<in> set l2)) l1, filter (\<lambda>x. x \<notin> set rest) l2)
         \<and> (\<forall>a. map_of m' a = (if a \<in> set rest \<and> a \<in> set l2 then Some (Single a) else map_of m a))"
  using assms
proof (induction rest arbitrary: m l1 l2)
  case Nil
  then show ?case by simp
next
  case (Cons a rest)
  show ?case
  proof (cases "a \<in> set l2")
    case False
    from Cons.prems have "distinct rest" "set rest \<subseteq> set l1" by auto
    from Cons.IH [OF this(1) Cons.prems(2,3) this(2), of m] obtain m' where
      run: "direct_matches_loop rest (m, l1, l2)
           = Inr (m', filter (\<lambda>x. \<not> (x \<in> set rest \<and> x \<in> set l2)) l1, filter (\<lambda>x. x \<notin> set rest) l2)"
      and mp: "\<forall>b. map_of m' b = (if b \<in> set rest \<and> b \<in> set l2 then Some (Single b) else map_of m b)"
      by blast
    have f1: "filter (\<lambda>x. \<not> (x \<in> set rest \<and> x \<in> set l2)) l1
        = filter (\<lambda>x. \<not> (x \<in> set (a # rest) \<and> x \<in> set l2)) l1"
      by (rule filter_cong) (use False in auto)
    have f2: "filter (\<lambda>x. x \<notin> set rest) l2 = filter (\<lambda>x. x \<notin> set (a # rest)) l2"
      by (rule filter_cong) (use False in auto)
    have "\<forall>b. map_of m' b = (if b \<in> set (a # rest) \<and> b \<in> set l2 then Some (Single b) else map_of m b)"
      using False mp by auto
    with run f1 f2 False show ?thesis by simp
  next
    case True
    let ?l1 = "filter (\<lambda>y. y \<noteq> a) l1" and ?l2 = "filter (\<lambda>y. y \<noteq> a) l2"
    let ?m = "AList.update a (Single a) m"
    from Cons.prems have a1: "a \<in> set l1" and na: "a \<notin> set rest" by auto
    have r1: "list_remove a l1 = Inr ?l1" and r2: "list_remove a l2 = Inr ?l2"
      using a1 True Cons.prems(2,3)
      by (auto simp: list_remove_def distinct_remove1_removeAll removeAll_filter_not_eq intro: filter_cong)
    have pre: "distinct rest" "distinct ?l1" "distinct ?l2" "set rest \<subseteq> set ?l1"
      using Cons.prems na by auto
    from Cons.IH [OF pre, of ?m] obtain m' where
      run: "direct_matches_loop rest (?m, ?l1, ?l2)
           = Inr (m', filter (\<lambda>x. \<not> (x \<in> set rest \<and> x \<in> set ?l2)) ?l1, filter (\<lambda>x. x \<notin> set rest) ?l2)"
      and mp: "\<forall>b. map_of m' b = (if b \<in> set rest \<and> b \<in> set ?l2 then Some (Single b) else map_of ?m b)"
      by blast
    have f1: "filter (\<lambda>x. \<not> (x \<in> set rest \<and> x \<in> set ?l2)) ?l1
        = filter (\<lambda>x. \<not> (x \<in> set (a # rest) \<and> x \<in> set l2)) l1"
      unfolding filter_filter by (rule filter_cong) (use True in auto)
    have f2: "filter (\<lambda>x. x \<notin> set rest) ?l2 = filter (\<lambda>x. x \<notin> set (a # rest)) l2"
      unfolding filter_filter by (rule filter_cong) auto
    have "\<forall>b. map_of m' b = (if b \<in> set (a # rest) \<and> b \<in> set l2 then Some (Single b) else map_of m b)"
      using True na mp by (auto simp: update_conv')
    with run f1 f2 True r1 r2 show ?thesis by simp
  qed
qed

lemma find_direct_matches_distinct:
  assumes "distinct lfm" and "distinct ltbmt"
  shows "\<exists>m. find_direct_matches lfm ltbmt
           = Inr (m, filter (\<lambda>x. x \<notin> set ltbmt) lfm, filter (\<lambda>x. x \<notin> set lfm) ltbmt)
         \<and> (\<forall>a. map_of m a = (if a \<in> set lfm \<and> a \<in> set ltbmt then Some (Single a) else None))"
proof -
  from direct_matches_loop_distinct [OF assms(1) assms(1) assms(2) subset_refl, of "[]"]
  obtain m' where run: "direct_matches_loop lfm ([], lfm, ltbmt)
           = Inr (m', filter (\<lambda>x. \<not> (x \<in> set lfm \<and> x \<in> set ltbmt)) lfm, filter (\<lambda>x. x \<notin> set lfm) ltbmt)"
    and mp: "\<forall>a. map_of m' a = (if a \<in> set lfm \<and> a \<in> set ltbmt then Some (Single a) else map_of [] a)"
    by blast
  have "filter (\<lambda>x. \<not> (x \<in> set lfm \<and> x \<in> set ltbmt)) lfm = filter (\<lambda>x. x \<notin> set ltbmt) lfm"
    by (rule filter_cong) auto
  with run mp show ?thesis by (simp add: find_direct_matches_def)
qed



lemma direct_matches_loop_keys:
  "direct_matches_loop rest (m, l1, l2) = Inr (m', l1', l2') \<Longrightarrow> distinct (map fst m)
     \<Longrightarrow> distinct (map fst m')"
proof (induction rest arbitrary: m l1 l2)
  case Nil
  then show ?case by simp
next
  case (Cons a rest)
  then show ?case
    by (auto split: if_splits sum.splits dest!: Cons.IH simp: distinct_update)
qed

lemma group_value_snoc:
  "group_value (bs @ [y]) =
     (case group_value bs of None \<Rightarrow> Some (Single y) | Some (Single v) \<Rightarrow> Some (Tied [v, y])
      | Some (Tied vs) \<Rightarrow> Some (Tied (vs @ [y])) | Some (Score r) \<Rightarrow> None)"
  by (cases bs rule: list.exhaust [case_product list.exhaust]) (auto simp: group_value_def split: list.splits)

lemma group_value_members: "group_value bs = Some v \<Longrightarrow> members v = set bs"
  by (auto simp: group_value_def members_def split: list.splits)

lemma group_value_None: "group_value bs = None \<longleftrightarrow> bs = []"
  by (auto simp: group_value_def split: list.splits)

lemma group_value_not_Score: "group_value bs \<noteq> Some (Score r)"
  by (auto simp: group_value_def split: list.splits)

lemma sorted_le_last: "sorted xs \<Longrightarrow> x \<in> set xs \<Longrightarrow> x \<le> last xs"
  by (induction xs) auto

lemma sort_Nil_iff: "sort xs = [] \<longleftrightarrow> xs = []"
  using length_sort [of "\<lambda>x. x" xs] by (metis length_0_conv)

lemma check_for_unique_similarity_map:
  assumes "\<forall>s. map_of d s = group_value (g s)"
  shows "map_of (check_for_unique_similarity s0 y d) s
     = group_value (if s = s0 then g s @ [y] else g s)"
proof (cases "s = s0")
  case False
  with assms show ?thesis
    by (auto simp: check_for_unique_similarity_def update_conv' split: option.splits match_value.splits)
next
  case True
  from assms have "map_of d s0 = group_value (g s0)" by simp
  with True group_value_not_Score [of "g s0"] show ?thesis
    by (cases "group_value (g s0)")
       (auto simp: check_for_unique_similarity_def update_conv' group_value_snoc
             split: option.splits match_value.splits)
qed

lemma most_similar_map:
  "map_of (most_similar limit pool a) s = group_value (score_group limit a pool s)"
proof -
  have "\<forall>s. map_of (fold (\<lambda>entry_b d.
             if limit < ratio a entry_b
             then check_for_unique_similarity (ratio a entry_b) entry_b d else d) ys []) s
        = group_value (score_group limit a ys s)" for ys
  proof (induction ys rule: rev_induct)
    case Nil
    then show ?case by (simp add: score_group_def group_value_def)
  next
    case (snoc y ys)
    show ?case
    proof (cases "limit < ratio a y")
      case True
      with check_for_unique_similarity_map [OF snoc.IH, of "ratio a y" y]
      show ?thesis by (auto simp: score_group_def)
    next
      case False
      with snoc.IH show ?thesis by (simp add: score_group_def)
    qed
  qed
  then show ?thesis by (simp add: most_similar_def)
qed

lemma ordered_keys_hd:
  assumes "ordered_keys d = k # ks"
  shows "k \<in> fst ` set d \<and> (\<forall>x \<in> fst ` set d. x \<le> k)"
proof -
  from assms have ne: "sort (map fst d) \<noteq> []" and k: "k = last (sort (map fst d))"
    by (auto simp: ordered_keys_def hd_rev [symmetric] simp del: hd_rev)
  have "sorted (sort (map fst d))" by simp
  then have "\<forall>x \<in> set (sort (map fst d)). x \<le> last (sort (map fst d))"
    by (blast intro: sorted_le_last)
  with k ne last_in_set [OF ne] show ?thesis by auto
qed

lemma ordered_keys_Nil: "ordered_keys d = [] \<longleftrightarrow> d = []"
  by (simp add: ordered_keys_def sort_Nil_iff)



lemma most_similar_key: "s \<in> fst ` set (most_similar limit pool a) \<longleftrightarrow> score_group limit a pool s \<noteq> []"
proof -
  have "s \<in> fst ` set (most_similar limit pool a) \<longleftrightarrow> map_of (most_similar limit pool a) s \<noteq> None"
    by (simp add: map_of_eq_None_iff)
  then show ?thesis by (simp add: most_similar_map group_value_None)
qed

lemma top_value_most_similar:
  "top_value (most_similar limit pool a) = group_value (top_group limit pool a)"
proof (cases "ordered_keys (most_similar limit pool a)")
  case Nil
  then have "most_similar limit pool a = []" by (simp add: ordered_keys_Nil)
  then have "score_group limit a pool s = []" for s
    using most_similar_key [of s limit pool a] by simp
  then have "\<forall>b \<in> set pool. \<not> limit < ratio a b"
    by (auto simp: score_group_def filter_empty_conv)
  then have "top_group limit pool a = []"
    by (auto simp: top_group_def filter_empty_conv)
  with Nil show ?thesis by (simp add: top_value_def group_value_def)
next
  case (Cons k ks)
  from ordered_keys_hd [OF Cons] have key: "k \<in> fst ` set (most_similar limit pool a)"
    and top: "\<forall>x \<in> fst ` set (most_similar limit pool a). x \<le> k" by auto
  from key obtain c where c: "c \<in> set pool" "limit < ratio a c" "ratio a c = k"
    by (auto simp: most_similar_key score_group_def filter_empty_conv)
  have above: "ratio a b \<le> k" if "b \<in> set pool" "limit < ratio a b" for b
  proof -
    from that have "score_group limit a pool (ratio a b) \<noteq> []"
      by (auto simp: score_group_def filter_empty_conv)
    then have "ratio a b \<in> fst ` set (most_similar limit pool a)"
      by (simp add: most_similar_key)
    with top show ?thesis by blast
  qed
  have "score_group limit a pool k = top_group limit pool a"
    unfolding score_group_def top_group_def
  proof (rule filter_cong [OF refl])
    fix b assume b: "b \<in> set pool"
    show "(limit < ratio a b \<and> ratio a b = k)
       = (limit < ratio a b \<and> (\<forall>c \<in> set pool. limit < ratio a c \<longrightarrow> ratio a c \<le> ratio a b))"
      using above b c by (auto intro: antisym)
  qed
  with Cons show ?thesis by (simp add: top_value_def most_similar_map)
qed

lemma greedy_loop_spec:
  assumes "greedy_loop ms entries (m, l1, l2) = Inr (m', l1', l2')"
    and "distinct l1" and "distinct l2" and "distinct entries"
  shows "(\<forall>a. map_of m' a = (if a \<in> set entries \<and> top_value (ms a) \<noteq> None
                              then top_value (ms a) else map_of m a))
       \<and> set l1' = set l1 - {a \<in> set entries. top_value (ms a) \<noteq> None}
       \<and> set l2' = set l2 - (\<Union>a \<in> {a \<in> set entries. top_value (ms a) \<noteq> None}. members (the (top_value (ms a))))
       \<and> distinct l1' \<and> distinct l2'"
  using assms
proof (induction entries arbitrary: m l1 l2)
  case Nil
  then show ?case by simp
next
  case (Cons a rest)
  show ?case
  proof (cases "ordered_keys (ms a)")
    case Nil
    then have none: "top_value (ms a) = None" by (simp add: top_value_def)
    from Cons.prems Nil have "greedy_loop ms rest (m, l1, l2) = Inr (m', l1', l2')" by simp
    from Cons.IH [OF this] Cons.prems none show ?thesis by auto
  next
    case (Cons k ks)
    from Cons.prems(1) Cons obtain v l1a l2a where
      v: "map_of (ms a) k = Some v" and r1: "list_remove a l1 = Inr l1a"
      and r2: "(case v of Tied bs \<Rightarrow> remove_each bs l2 | Single b \<Rightarrow> list_remove b l2
                 | Score r \<Rightarrow> Inl ValueError) = Inr l2a"
      and run: "greedy_loop ms rest (AList.update a v m, l1a, l2a) = Inr (m', l1', l2')"
      by (auto split: option.splits sum.splits)
    from v Cons have tv: "top_value (ms a) = Some v" by (simp add: top_value_def)
    from list_remove_distinct [OF Cons.prems(2) r1] have l1a: "l1a = filter (\<lambda>y. y \<noteq> a) l1" by simp
    have l2a: "set l2a = set l2 - members v \<and> distinct l2a"
    proof (cases v)
      case (Single b)
      with r2 list_remove_distinct [OF Cons.prems(3), of b l2a] Cons.prems(3)
      show ?thesis by (auto simp: members_def)
    next
      case (Tied bs)
      with r2 remove_each_distinct [OF Cons.prems(3), of bs l2a] Cons.prems(3)
      show ?thesis by (auto simp: members_def)
    next
      case (Score r)
      with r2 show ?thesis by simp
    qed
    have pre: "distinct l1a" "distinct l2a" "distinct rest"
      using l1a l2a Cons.prems by auto
    from Cons.prems have na: "a \<notin> set rest" by simp
    from Cons.IH [OF run pre] have
      mp: "\<forall>x. map_of m' x = (if x \<in> set rest \<and> top_value (ms x) \<noteq> None
                              then top_value (ms x) else map_of (AList.update a v m) x)"
      and s1: "set l1' = set l1a - {x \<in> set rest. top_value (ms x) \<noteq> None}"
      and s2: "set l2' = set l2a - (\<Union>x \<in> {x \<in> set rest. top_value (ms x) \<noteq> None}. members (the (top_value (ms x))))"
      and d: "distinct l1'" "distinct l2'"
      by auto
    have "\<forall>x. map_of m' x = (if x \<in> set (a # rest) \<and> top_value (ms x) \<noteq> None
                              then top_value (ms x) else map_of m x)"
      using mp tv na by (auto simp: update_conv')
    moreover have "set l1' = set l1 - {x \<in> set (a # rest). top_value (ms x) \<noteq> None}"
      using s1 l1a tv by auto
    moreover have "set l2' = set l2 - (\<Union>x \<in> {x \<in> set (a # rest). top_value (ms x) \<noteq> None}. members (the (top_value (ms x))))"
      using s2 l2a tv by auto
    ultimately show ?thesis using d by blast
  qed
qed



lemma match_similar_no_simplify:
  assumes "match_similar con answers lfm ltbmt SimplifyFalse ama smo ecc md limit = Inr (m, nm, l1, l2)"
  shows "distinct lfm \<and> distinct ltbmt \<and>
     (\<exists>nml. match_similar_core con answers lfm ltbmt ama ecc md limit = Inr (m, nml, l1, l2)
        \<and> nm = set nml)"
  using assms
  by (auto simp: match_similar_def card_distinct split: if_splits sum.splits)

lemma direct_matches_pools:
  assumes "distinct lfm" and "distinct ltbmt"
  shows "\<exists>m. direct_matches_loop lfm ([], lfm, ltbmt)
           = Inr (m, source_pool lfm ltbmt, target_pool lfm ltbmt)
         \<and> (\<forall>a. map_of m a = (if a \<in> set lfm \<and> a \<in> set ltbmt then Some (Single a) else None))
         \<and> distinct (map fst m)"
proof -
  from find_direct_matches_distinct [OF assms] obtain m where
    run: "direct_matches_loop lfm ([], lfm, ltbmt)
           = Inr (m, source_pool lfm ltbmt, target_pool lfm ltbmt)"
    and mp: "\<forall>a. map_of m a = (if a \<in> set lfm \<and> a \<in> set ltbmt then Some (Single a) else None)"
    by (auto simp: find_direct_matches_def source_pool_def target_pool_def)
  from direct_matches_loop_keys [OF run] have "distinct (map fst m)" by simp
  with run mp show ?thesis by blast
qed

lemma per_entry_greedy_run:
  assumes "match_similar con answers lfm ltbmt SimplifyFalse True smo False md limit = Inr (m, nm, l1, l2)"
  shows "(\<forall>a. map_of m a =
            (if a \<in> set (source_pool lfm ltbmt) \<and> top_group limit (target_pool lfm ltbmt) a \<noteq> []
             then group_value (top_group limit (target_pool lfm ltbmt) a)
             else if a \<in> set lfm \<and> a \<in> set ltbmt then Some (Single a) else None))
       \<and> set l1 = set (source_pool lfm ltbmt)
             - {a. top_group limit (target_pool lfm ltbmt) a \<noteq> []}
       \<and> set l2 = set (target_pool lfm ltbmt)
             - (\<Union>a \<in> {a \<in> set (source_pool lfm ltbmt). top_group limit (target_pool lfm ltbmt) a \<noteq> []}.
                  set (top_group limit (target_pool lfm ltbmt) a))
       \<and> nm = set l1"
proof -
  let ?src = "source_pool lfm ltbmt" and ?pool = "target_pool lfm ltbmt"
  let ?ms = "most_similar limit ?pool"
  from match_similar_no_simplify [OF assms] obtain nml where
    d: "distinct lfm" "distinct ltbmt"
    and core: "match_similar_core con answers lfm ltbmt True False md limit = Inr (m, nml, l1, l2)"
    and nm: "nm = set nml" by blast
  from direct_matches_pools [OF d] obtain m0 where
    dm: "direct_matches_loop lfm ([], lfm, ltbmt) = Inr (m0, ?src, ?pool)"
    and m0: "\<forall>a. map_of m0 a = (if a \<in> set lfm \<and> a \<in> set ltbmt then Some (Single a) else None)"
    by blast
  from core dm have run: "greedy_loop ?ms ?src (m0, ?src, ?pool) = Inr (m, l1, l2)"
    and nml: "nml = filter (\<lambda>x. map_of m x = None) (remdups l1)"
    by (auto simp: match_similar_core_def split: sum.splits)
  have ds: "distinct ?src" "distinct ?pool" using d by (simp_all add: source_pool_def target_pool_def)
  have tv: "top_value (?ms a) = group_value (top_group limit ?pool a)" for a
    by (rule top_value_most_similar)
  have gvS: "(\<exists>y. group_value bs = Some y) \<longleftrightarrow> bs \<noteq> []" for bs
    using group_value_None [of bs] by auto
  have tvn: "top_value (?ms a) \<noteq> None \<longleftrightarrow> top_group limit ?pool a \<noteq> []" for a
    by (simp add: tv group_value_None)
  have tvS: "(\<exists>y. top_value (?ms a) = Some y) \<longleftrightarrow> top_group limit ?pool a \<noteq> []" for a
    using tvn [of a] by auto
  have mem: "members (the (top_value (?ms a))) = set (top_group limit ?pool a)"
    if "top_group limit ?pool a \<noteq> []" for a
  proof -
    from that obtain v where "group_value (top_group limit ?pool a) = Some v"
      by (auto simp: group_value_None [symmetric])
    then show ?thesis using group_value_members [of "top_group limit ?pool a" v] by (simp add: tv)
  qed
  from greedy_loop_spec [OF run ds(1) ds(2) ds(1)] have
    mp: "\<forall>a. map_of m a = (if a \<in> set ?src \<and> top_value (?ms a) \<noteq> None
                              then top_value (?ms a) else map_of m0 a)"
    and s1: "set l1 = set ?src - {a \<in> set ?src. top_value (?ms a) \<noteq> None}"
    and s2: "set l2 = set ?pool - (\<Union>a \<in> {a \<in> set ?src. top_value (?ms a) \<noteq> None}. members (the (top_value (?ms a))))"
    by auto
  have c1: "\<forall>a. map_of m a =
            (if a \<in> set ?src \<and> top_group limit ?pool a \<noteq> []
             then group_value (top_group limit ?pool a)
             else if a \<in> set lfm \<and> a \<in> set ltbmt then Some (Single a) else None)"
  proof
    fix a
    from mp have "map_of m a = (if a \<in> set ?src \<and> top_value (?ms a) \<noteq> None
                              then top_value (?ms a) else map_of m0 a)" by (rule spec)
    moreover from m0 have "map_of m0 a = (if a \<in> set lfm \<and> a \<in> set ltbmt then Some (Single a) else None)"
      by (rule spec)
    ultimately show "map_of m a =
            (if a \<in> set ?src \<and> top_group limit ?pool a \<noteq> []
             then group_value (top_group limit ?pool a)
             else if a \<in> set lfm \<and> a \<in> set ltbmt then Some (Single a) else None)"
      unfolding tv using gvS [of "top_group limit ?pool a"] by auto
  qed
  have c2: "set l1 = set ?src - {a. top_group limit ?pool a \<noteq> []}"
    using s1 by (auto simp: tvS)
  have c3: "set l2 = set ?pool
             - (\<Union>a \<in> {a \<in> set ?src. top_group limit ?pool a \<noteq> []}. set (top_group limit ?pool a))"
    using s2 mem by (auto simp: tvS)
  have "map_of m x = None" if "x \<in> set l1" for x
    using that c1 c2 by (auto simp: source_pool_def)
  then have c4: "nm = set l1" using nm nml by auto
  from c1 c2 c3 c4 show ?thesis by blast
qed

lemma match_similar_unchanged_sets:
  assumes "match_similar con answers lfm ltbmt SimplifyFalse ama smo ecc md limit = Inr (m, nm, l1, l2)"
  shows "(\<forall>a. a \<in> set lfm \<and> a \<in> set ltbmt \<longrightarrow> a \<notin> set l1 \<and> a \<notin> set l2)
       \<and> (ama \<and> \<not> ecc \<longrightarrow> (\<forall>a v. map_of m a = Some v \<longrightarrow> a \<notin> set l1 \<and> members v \<inter> set l2 = {}))
       \<and> set l1 \<subseteq> set lfm \<and> set l2 \<subseteq> set ltbmt"
proof -
  let ?src = "source_pool lfm ltbmt" and ?pool = "target_pool lfm ltbmt"
  from match_similar_no_simplify [OF assms] obtain nml where
    d: "distinct lfm" "distinct ltbmt"
    and core: "match_similar_core con answers lfm ltbmt ama ecc md limit = Inr (m, nml, l1, l2)"
    by blast
  from direct_matches_pools [OF d] obtain m0 where
    dm: "direct_matches_loop lfm ([], lfm, ltbmt) = Inr (m0, ?src, ?pool)" by blast
  have sub: "set l1 \<subseteq> set ?src \<and> set l2 \<subseteq> set ?pool"
  proof (cases "ama \<and> \<not> ecc")
    case True
    with assms per_entry_greedy_run [of con answers lfm ltbmt smo md limit m nm l1 l2]
    show ?thesis by auto
  next
    case False
    with core dm show ?thesis
      by (auto simp: match_similar_core_def split: sum.splits if_splits)
  qed
  have direct: "\<forall>a. a \<in> set lfm \<and> a \<in> set ltbmt \<longrightarrow> a \<notin> set l1 \<and> a \<notin> set l2"
    using sub by (auto simp: source_pool_def target_pool_def)
  have greedy: "\<forall>a v. map_of m a = Some v \<longrightarrow> a \<notin> set l1 \<and> members v \<inter> set l2 = {}"
    if g: "ama \<and> \<not> ecc"
  proof (intro allI impI)
    fix a v assume av: "map_of m a = Some v"
    from g assms per_entry_greedy_run [of con answers lfm ltbmt smo md limit m nm l1 l2] have
      mp: "map_of m a =
            (if a \<in> set ?src \<and> top_group limit ?pool a \<noteq> []
             then group_value (top_group limit ?pool a)
             else if a \<in> set lfm \<and> a \<in> set ltbmt then Some (Single a) else None)"
      and s1: "set l1 = set ?src - {a. top_group limit ?pool a \<noteq> []}"
      and s2: "set l2 = set ?pool
             - (\<Union>a \<in> {a \<in> set ?src. top_group limit ?pool a \<noteq> []}. set (top_group limit ?pool a))"
      by auto
    show "a \<notin> set l1 \<and> members v \<inter> set l2 = {}"
    proof (cases "a \<in> set ?src \<and> top_group limit ?pool a \<noteq> []")
      case True
      with mp av have "group_value (top_group limit ?pool a) = Some v" by simp
      from group_value_members [OF this] True s1 s2 show ?thesis by auto
    next
      case False
      with mp av have "a \<in> set lfm" "a \<in> set ltbmt" "v = Single a" by (auto split: if_splits)
      with direct show ?thesis by (auto simp: members_def)
    qed
  qed
  from direct greedy sub show ?thesis by (auto simp: source_pool_def target_pool_def)
qed



lemma fold_invariant:
  assumes "P s0" and "\<And>x s. x \<in> set xs \<Longrightarrow> P s \<Longrightarrow> P (f x s)"
  shows "P (fold f xs s0)"
  using assms by (induction xs arbitrary: s0) auto

definition pairs_ok :: "(rat \<Rightarrow> label \<Rightarrow> label \<Rightarrow> bool) \<Rightarrow> (rat \<times> (label \<times> label) list) list \<Rightarrow> bool" where
  "pairs_ok Q d \<longleftrightarrow> (\<forall>s pairs a b. map_of d s = Some pairs \<longrightarrow> (a, b) \<in> set pairs \<longrightarrow> Q s a b)"

lemma dict_append_pairs_ok:
  "pairs_ok Q d \<Longrightarrow> Q s a b \<Longrightarrow> pairs_ok Q (dict_append s (a, b) d)"
  by (auto simp: pairs_ok_def dict_append_def update_conv' split: option.splits if_splits)

lemma similarity_rows_ok:
  assumes "pairs_ok Q d" and "(s, a, b) \<in> set (similarity_rows d)"
  shows "Q s a b"
proof -
  from assms(2) have "\<exists>pairs. map_of d s = Some pairs \<and> (a, b) \<in> set pairs"
    by (auto simp: similarity_rows_def split: option.splits) metis
  then obtain pairs where "map_of d s = Some pairs" and "(a, b) \<in> set pairs" by blast
  with assms(1) show ?thesis unfolding pairs_ok_def by blast
qed

lemma all_similarities_ok:
  "pairs_ok (\<lambda>s a b. s = ratio a b \<and> limit < s \<and> a \<in> set A \<and> b \<in> set B) (all_similarities limit A B)"
  (is "pairs_ok ?Q _")
proof -
  have inner: "pairs_ok ?Q (fold (\<lambda>entry_b d.
                     if limit < ratio a entry_b
                     then dict_append (ratio a entry_b) (a, entry_b) d else d) B d)"
    if "pairs_ok ?Q d" and "a \<in> set A" for a d
  proof (rule fold_invariant [where P = "pairs_ok ?Q"])
    show "pairs_ok ?Q d" by (rule that)
  next
    fix x d' assume "x \<in> set B" and "pairs_ok ?Q d'"
    with that(2) show "pairs_ok ?Q (if limit < ratio a x then dict_append (ratio a x) (a, x) d' else d')"
      by (simp add: dict_append_pairs_ok)
  qed
  show ?thesis
    unfolding all_similarities_def
  proof (rule fold_invariant [where P = "pairs_ok ?Q"])
    show "pairs_ok ?Q []" by (simp add: pairs_ok_def)
  qed (rule inner)
qed

lemma similarities_by_similarity_ok:
  "pairs_ok (\<lambda>s a b. s = ratio a b \<and> a \<in> set A \<and> b \<in> set B) (similarities_by_similarity A B)"
  (is "pairs_ok ?Q _")
proof -
  have inner: "pairs_ok ?Q (fold (\<lambda>entry_b d. dict_append (ratio a entry_b) (a, entry_b) d) B d)"
    if "pairs_ok ?Q d" and "a \<in> set A" for a d
  proof (rule fold_invariant [where P = "pairs_ok ?Q"])
    show "pairs_ok ?Q d" by (rule that)
  next
    fix x d' assume "x \<in> set B" and "pairs_ok ?Q d'"
    with that(2) show "pairs_ok ?Q (dict_append (ratio a x) (a, x) d')"
      by (simp add: dict_append_pairs_ok)
  qed
  show ?thesis
    unfolding similarities_by_similarity_def
  proof (rule fold_invariant [where P = "pairs_ok ?Q"])
    show "pairs_ok ?Q []" by (simp add: pairs_ok_def)
  qed (rule inner)
qed

lemma drop_entries_set:
  "set (drop_entries a b df) = {(s, a', b') \<in> set df. a' \<noteq> a \<and> b' \<noteq> b}"
  by (auto simp: drop_entries_def)

lemma commit_indexes_invariant:
  assumes "commit_indexes idxs (m, df) = Inr (m', df')" and "I m df"
    and single: "\<And>m df s a b df'. I m df \<Longrightarrow> (s, a, b) \<in> set df \<Longrightarrow>
       set df' \<subseteq> set (drop_entries a b df) \<Longrightarrow> I (AList.update a (Single b) m) df'"
  shows "I m' df'"
  using assms(1,2)
proof (induction idxs arbitrary: m df)
  case Nil
  then show ?case by simp
next
  case (Cons i idxs)
  from Cons.prems(1) have lt: "i < length df" by (auto split: if_splits)
  obtain s a b where row: "df ! i = (s, a, b)" by (cases "df ! i") auto
  with lt have mem: "(s, a, b) \<in> set df" by (metis nth_mem)
  from Cons.prems(1) lt row
  have run: "commit_indexes idxs (AList.update a (Single b) m, drop_entries a b df) = Inr (m', df')"
    by simp
  from single [OF Cons.prems(2) mem subset_refl]
  have "I (AList.update a (Single b) m) (drop_entries a b df)" .
  from Cons.IH [OF run this] show ?case .
qed

lemma comprehensive_step_invariant:
  assumes step: "comprehensive_step f (m, df) = Inr (m', df')" and ne: "df \<noteq> []" and I: "I m df"
    and single: "\<And>m df s a b df'. I m df \<Longrightarrow> (s, a, b) \<in> set df \<Longrightarrow>
       set df' \<subseteq> set (drop_entries a b df) \<Longrightarrow> I (AList.update a (Single b) m) df'"
    and tied: "\<And>m df s a b mm. I m df \<Longrightarrow> (s, a, b) \<in> set df \<Longrightarrow>
       I (AList.update a (Tied mm) m) (drop_entries a b df)"
    and skip: "\<And>m df s a b. I m df \<Longrightarrow> (s, a, b) \<in> set df \<Longrightarrow> I m (drop_entries a b df)"
  shows "I m' df'"
proof -
  obtain s0 a0 b0 where hd: "hd df = (s0, a0, b0)" by (cases "hd df") auto
  with ne have mem: "(s0, a0, b0) \<in> set df" by (metis hd_in_set)
  show ?thesis
  proof (cases "1 < length df \<and> s0 \<noteq> fst (df ! 1)")
    case True
    with step hd have m': "m' = AList.update a0 (Single b0) m"
      and df': "df' = drop_entries a0 b0 (filter (\<lambda>(s, a, b). s \<noteq> s0) df)"
      by (auto simp: comprehensive_step_def)
    have "set df' \<subseteq> set (drop_entries a0 b0 df)" by (auto simp: df' drop_entries_set)
    from single [OF I mem this] m' show ?thesis by simp
  next
    case False
    with step hd have
      "(\<exists>indexes'. indexes' \<noteq> [] \<and> commit_indexes indexes' (m, df) = Inr (m', df'))
       \<or> (\<exists>mm. m' = AList.update a0 (Tied mm) m \<and> df' = drop_entries a0 b0 df)
       \<or> (m' = m \<and> df' = drop_entries a0 b0 df)"
      by (auto simp: comprehensive_step_def Let_def split: sum.splits if_splits)
    moreover have "I m' df'" if "commit_indexes idxs (m, df) = Inr (m', df')" for idxs
    proof (rule commit_indexes_invariant [where I = I])
      show "commit_indexes idxs (m, df) = Inr (m', df')" by (rule that)
      show "I m df" by (rule I)
      show "I (AList.update a (Single b) m) df'"
        if "I m df" and "(s, a, b) \<in> set df" and "set df' \<subseteq> set (drop_entries a b df)"
        for m df s a b df'
        using that by (rule single)
    qed
    ultimately show ?thesis
      using tied [OF I mem] skip [OF I mem] by blast
  qed
qed

lemma comprehensive_loop_invariant:
  assumes "comprehensive_loop f old (m, df) = Inr (m', df')" and "I m df"
    and single: "\<And>m df s a b df'. I m df \<Longrightarrow> (s, a, b) \<in> set df \<Longrightarrow>
       set df' \<subseteq> set (drop_entries a b df) \<Longrightarrow> I (AList.update a (Single b) m) df'"
    and tied: "\<And>m df s a b mm. I m df \<Longrightarrow> (s, a, b) \<in> set df \<Longrightarrow>
       I (AList.update a (Tied mm) m) (drop_entries a b df)"
    and skip: "\<And>m df s a b. I m df \<Longrightarrow> (s, a, b) \<in> set df \<Longrightarrow> I m (drop_entries a b df)"
  shows "I m' df'"
  using assms(1,2)
proof (induction f old "(m, df)" arbitrary: m df rule: comprehensive_loop.induct)
  case (1 f old m df)
  show ?case
  proof (cases "length df \<noteq> 0 \<and> length df \<noteq> old")
    case False
    with "1.prems"(1) have "m' = m \<and> df' = df"
      by (subst (asm) comprehensive_loop.simps) (auto split: if_splits)
    with "1.prems"(2) show ?thesis by simp
  next
    case True
    with "1.prems"(1) obtain m1 df1 where
      step: "comprehensive_step f (m, df) = Inr (m1, df1)"
      and run: "comprehensive_loop f (length df) (m1, df1) = Inr (m', df')"
      by (auto simp: comprehensive_loop.simps [of f old m df] split: sum.splits)
    from True have "df \<noteq> []" by auto
    from comprehensive_step_invariant [OF step this "1.prems"(2) single tied skip]
    have "I m1 df1" .
    from "1.hyps" [OF True step run this] show ?thesis .
  qed
qed



lemma further_prompts_value:
  "further_prompts d oms ns shown ans = Inr (Some v, ans') \<Longrightarrow> \<exists>k. map_of d k = Some v"
  by (induction ns arbitrary: shown ans) (auto split: if_splits list.splits option.splits)

lemma ask_value:
  "ask con a d ans = Inr (Some v, ans') \<Longrightarrow> \<exists>k. map_of d k = Some v"
  by (auto simp: ask_def Let_def split: if_splits list.splits answer.splits option.splits sum.splits
      dest: further_prompts_value)

lemma interactive_entry_spec:
  assumes "interactive_entry con md d e (m, ans) = Inr (m2, ans2)"
  shows "(\<forall>x v. map_of m2 x = Some v \<longrightarrow> map_of m x = Some v \<or> (x = e \<and> (\<exists>k. map_of d k = Some v)))
     \<and> (d = [] \<longrightarrow> m2 = m)"
proof -
  define m1 where "m1 = (if d \<noteq> [] \<and> auto_accept md (ordered_keys d)
                    then (case map_of d (ordered_keys d ! 0) of
                            Some v \<Rightarrow> AList.update e v m | None \<Rightarrow> m)
                    else m)"
  have m1: "\<forall>x v. map_of m1 x = Some v \<longrightarrow> map_of m x = Some v \<or> (x = e \<and> (\<exists>k. map_of d k = Some v))"
    by (auto simp: m1_def update_conv' split: option.splits if_splits)
  have m1e: "d = [] \<longrightarrow> m1 = m" by (simp add: m1_def)
  from assms have
    a: "(if d \<noteq> [] \<and> map_of m1 e = None
                then (case ask con e d ans of
                        Inl e \<Rightarrow> Inl e
                      | Inr (Some v, answers') \<Rightarrow> Inr (AList.update e v m1, answers')
                      | Inr (None, answers') \<Rightarrow> Inr (m1, answers'))
                else Inr (m1, ans)) = Inr (m2, ans2)"
    unfolding interactive_entry_def Let_def m1_def prod.case .
  then have "m2 = m1 \<or> (\<exists>v k. m2 = AList.update e v m1 \<and> map_of d k = Some v)"
    by (auto split: if_splits sum.splits prod.splits option.splits dest: ask_value)
  with m1 have "\<forall>x v. map_of m2 x = Some v \<longrightarrow> map_of m x = Some v \<or> (x = e \<and> (\<exists>k. map_of d k = Some v))"
    by (auto simp: update_conv' split: if_splits; blast)
  moreover from a m1e have "d = [] \<longrightarrow> m2 = m" by auto
  ultimately show ?thesis by blast
qed

lemma interactive_step:
  assumes "interactive_loop con md ms (e # rest) (m, nm, ans) = Inr (m', nm', ans')"
  shows "\<exists>m2 ans2.
     interactive_loop con md ms rest
       (m2, if map_of m2 e = None then nm @ [e] else nm, ans2) = Inr (m', nm', ans')
     \<and> (\<forall>x v. map_of m2 x = Some v \<longrightarrow> map_of m x = Some v \<or> (x = e \<and> (\<exists>k. map_of (ms e) k = Some v)))
     \<and> (ms e = [] \<longrightarrow> m2 = m)"
proof -
  from assms obtain m2 ans2 where
    e: "interactive_entry con md (ms e) e (m, ans) = Inr (m2, ans2)"
    and run: "interactive_loop con md ms rest
       (m2, if map_of m2 e = None then nm @ [e] else nm, ans2) = Inr (m', nm', ans')"
    by (auto split: sum.splits)
  from interactive_entry_spec [OF e] run show ?thesis by blast
qed

lemma interactive_loop_spec:
  assumes "interactive_loop con md ms entries (m, nm, ans) = Inr (m', nm', ans')"
  shows "(\<forall>a v. map_of m' a = Some v \<longrightarrow>
            map_of m a = Some v \<or> (a \<in> set entries \<and> (\<exists>k. map_of (ms a) k = Some v)))
       \<and> set nm \<subseteq> set nm'
       \<and> (distinct entries \<longrightarrow> (\<forall>a \<in> set entries. ms a = [] \<and> map_of m a = None \<longrightarrow> a \<in> set nm'))"
  using assms
proof (induction entries arbitrary: m nm ans)
  case Nil
  then show ?case by simp
next
  case (Cons e rest)
  from interactive_step [OF Cons.prems] obtain m2 ans2 where
    run: "interactive_loop con md ms rest
       (m2, if map_of m2 e = None then nm @ [e] else nm, ans2) = Inr (m', nm', ans')"
    and m2: "\<forall>x v. map_of m2 x = Some v \<longrightarrow> map_of m x = Some v \<or> (x = e \<and> (\<exists>k. map_of (ms e) k = Some v))"
    and m2e: "ms e = [] \<longrightarrow> m2 = m"
    by blast
  let ?nm2 = "if map_of m2 e = None then nm @ [e] else nm"
  from Cons.IH [OF run] have
    v: "\<forall>a v. map_of m' a = Some v \<longrightarrow>
            map_of m2 a = Some v \<or> (a \<in> set rest \<and> (\<exists>k. map_of (ms a) k = Some v))"
    and sub: "set ?nm2 \<subseteq> set nm'"
    and nomatch: "distinct rest \<longrightarrow> (\<forall>a \<in> set rest. ms a = [] \<and> map_of m2 a = None \<longrightarrow> a \<in> set nm')"
    by auto
  have c1: "\<forall>a v. map_of m' a = Some v \<longrightarrow>
            map_of m a = Some v \<or> (a \<in> set (e # rest) \<and> (\<exists>k. map_of (ms a) k = Some v))"
    using v m2 by (metis list.set_intros(1) list.set_intros(2))
  have c2: "set nm \<subseteq> set nm'" using sub by (auto split: if_splits)
  have c3: "a \<in> set nm'"
    if "distinct (e # rest)" and "a \<in> set (e # rest)" and "ms a = []" and "map_of m a = None" for a
  proof (cases "a = e")
    case True
    with that m2e have "map_of m2 e = None" by auto
    with sub True show ?thesis by auto
  next
    case False
    with that have "a \<in> set rest" "distinct rest" by auto
    moreover from m2 False that have "map_of m2 a = None"
      by (metis not_Some_eq)
    ultimately show ?thesis using nomatch that by blast
  qed
  from c1 c2 c3 show ?case by blast
qed



lemma most_similar_value_members:
  assumes "map_of (most_similar limit pool a) k = Some v" and "b \<in> members v"
  shows "limit < ratio a b \<and> b \<in> set pool"
proof -
  from assms(1) have "group_value (score_group limit a pool k) = Some v"
    by (simp add: most_similar_map)
  from group_value_members [OF this] assms(2) show ?thesis
    by (auto simp: score_group_def)
qed

lemma most_similar_Nil:
  assumes "\<forall>b \<in> set pool. ratio a b \<le> limit"
  shows "most_similar limit pool a = []"
proof -
  have "score_group limit a pool s = []" for s
    using assms by (auto simp: score_group_def filter_empty_conv)
  then have "map_of (most_similar limit pool a) = Map.empty"
    by (auto simp: most_similar_map group_value_def fun_eq_iff)
  then show ?thesis by simp
qed

lemma top_group_Nil:
  "(\<forall>b \<in> set pool. ratio a b \<le> limit) \<Longrightarrow> top_group limit pool a = []"
  by (auto simp: top_group_def filter_empty_conv)

lemma top_group_member: "b \<in> set (top_group limit pool a) \<Longrightarrow> limit < ratio a b"
  by (simp add: top_group_def)

lemma global_greedy_run:
  assumes "match_similar con answers lfm ltbmt SimplifyFalse True smo True md limit = Inr (m, nm, l1, l2)"
  shows "\<exists>m0 df. comprehensive_loop False 0
           (m0, similarity_rows (all_similarities limit (source_pool lfm ltbmt) (target_pool lfm ltbmt)))
           = Inr (m, df)
       \<and> (\<forall>a. map_of m0 a = (if a \<in> set lfm \<and> a \<in> set ltbmt then Some (Single a) else None))
       \<and> nm = {x \<in> set (source_pool lfm ltbmt). map_of m x = None}
       \<and> distinct lfm \<and> distinct ltbmt \<and> distinct (map fst m0)"
proof -
  from match_similar_no_simplify [OF assms] obtain nml where
    d: "distinct lfm" "distinct ltbmt"
    and core: "match_similar_core con answers lfm ltbmt True True md limit = Inr (m, nml, l1, l2)"
    and nm: "nm = set nml" by blast
  from direct_matches_pools [OF d] obtain m0 where
    dm: "direct_matches_loop lfm ([], lfm, ltbmt) = Inr (m0, source_pool lfm ltbmt, target_pool lfm ltbmt)"
    and m0: "\<forall>a. map_of m0 a = (if a \<in> set lfm \<and> a \<in> set ltbmt then Some (Single a) else None)"
    and dk: "distinct (map fst m0)"
    by blast
  from core dm obtain df where
    "comprehensive_loop False 0
           (m0, similarity_rows (all_similarities limit (source_pool lfm ltbmt) (target_pool lfm ltbmt)))
           = Inr (m, df)"
    and "nml = filter (\<lambda>x. map_of m x = None) (remdups (source_pool lfm ltbmt))"
    by (auto simp: match_similar_core_def split: sum.splits)
  with m0 nm d dk show ?thesis by auto
qed

lemma interactive_run:
  assumes "match_similar con answers lfm ltbmt SimplifyFalse False smo ecc md limit = Inr (m, nm, l1, l2)"
  shows "\<exists>m0 nml ans'. interactive_loop con md (most_similar limit (target_pool lfm ltbmt))
           (source_pool lfm ltbmt) (m0, [], answers) = Inr (m, nml, ans')
       \<and> (\<forall>a. map_of m0 a = (if a \<in> set lfm \<and> a \<in> set ltbmt then Some (Single a) else None))
       \<and> nm = set nml \<and> distinct lfm \<and> distinct ltbmt"
proof -
  from match_similar_no_simplify [OF assms] obtain nml where
    d: "distinct lfm" "distinct ltbmt"
    and core: "match_similar_core con answers lfm ltbmt False ecc md limit = Inr (m, nml, l1, l2)"
    and nm: "nm = set nml" by blast
  from direct_matches_pools [OF d] obtain m0 where
    dm: "direct_matches_loop lfm ([], lfm, ltbmt) = Inr (m0, source_pool lfm ltbmt, target_pool lfm ltbmt)"
    and m0: "\<forall>a. map_of m0 a = (if a \<in> set lfm \<and> a \<in> set ltbmt then Some (Single a) else None)"
    by blast
  from core dm obtain ans' where
    "interactive_loop con md (most_similar limit (target_pool lfm ltbmt))
           (source_pool lfm ltbmt) (m0, [], answers) = Inr (m, nml, ans')"
    by (auto simp: match_similar_core_def split: sum.splits)
  with m0 nm d show ?thesis by blast
qed

definition consumption_inv :: "match_dict \<Rightarrow> row list \<Rightarrow> bool" where
  "consumption_inv m df \<longleftrightarrow>
     (\<forall>s a b. (s, a, b) \<in> set df \<longrightarrow> map_of m a = None \<and> (\<forall>a'. map_of m a' \<noteq> Some (Single b)))
     \<and> single_unique m \<and> distinct (map fst m)"

lemma consumption_loop:
  assumes "comprehensive_loop f old (m0, rows) = Inr (m, df)" and "consumption_inv m0 rows"
  shows "consumption_inv m df"
proof (rule comprehensive_loop_invariant [where I = consumption_inv, OF assms])
  fix m df s a b df'
  assume "consumption_inv m df" "(s, a, b) \<in> set df" "set df' \<subseteq> set (drop_entries a b df)"
  then show "consumption_inv (AList.update a (Single b) m) df'"
    unfolding consumption_inv_def single_unique_def
    by (auto simp: update_conv' drop_entries_set distinct_update split: if_splits)
next
  fix m df s a b mm
  assume "consumption_inv m df" "(s, a, b) \<in> set df"
  then show "consumption_inv (AList.update a (Tied mm) m) (drop_entries a b df)"
    unfolding consumption_inv_def single_unique_def
    by (auto simp: update_conv' drop_entries_set distinct_update split: if_splits)
next
  fix m df s a b
  assume "consumption_inv m df" "(s, a, b) \<in> set df"
  then show "consumption_inv m (drop_entries a b df)"
    unfolding consumption_inv_def by (auto simp: drop_entries_set)
qed

lemma consumption_start:
  assumes "\<forall>a. map_of m0 a = (if a \<in> set lfm \<and> a \<in> set ltbmt then Some (Single a) else None)"
    and "distinct (map fst m0)"
    and "\<And>s a b. (s, a, b) \<in> set rows \<Longrightarrow> a \<in> set (source_pool lfm ltbmt) \<and> b \<in> set (target_pool lfm ltbmt)"
  shows "consumption_inv m0 rows"
  unfolding consumption_inv_def single_unique_def
  using assms by (auto simp: source_pool_def target_pool_def split: if_splits)



lemma check_uniqueness_distinct: "check_uniqueness_of_entries xs = Inr u \<Longrightarrow> distinct xs"
  by (auto simp: check_uniqueness_of_entries_def card_distinct split: if_splits)

lemma comprehensive_core_unique:
  assumes "match_comprehensive_core lfm ltbmt = Inr (m, nml, l1, l2)"
    and "distinct lfm" and "distinct ltbmt"
  shows "single_unique m \<and> distinct (map fst m)"
proof -
  let ?rows = "similarity_rows (similarities_by_similarity (source_pool lfm ltbmt) (target_pool lfm ltbmt))"
  from direct_matches_pools [OF assms(2,3)] obtain m0 where
    dm: "find_direct_matches lfm ltbmt = Inr (m0, source_pool lfm ltbmt, target_pool lfm ltbmt)"
    and m0: "\<forall>a. map_of m0 a = (if a \<in> set lfm \<and> a \<in> set ltbmt then Some (Single a) else None)"
    and dk: "distinct (map fst m0)"
    by (auto simp: find_direct_matches_def)
  from assms(1) dm obtain df where loop: "comprehensive_loop True 0 (m0, ?rows) = Inr (m, df)"
    by (auto simp: match_comprehensive_core_def split: sum.splits)
  have "consumption_inv m0 ?rows"
  proof (rule consumption_start [OF m0 dk])
    fix s a b assume "(s, a, b) \<in> set ?rows"
    from similarity_rows_ok [OF similarities_by_similarity_ok this]
    show "a \<in> set (source_pool lfm ltbmt) \<and> b \<in> set (target_pool lfm ltbmt)" by simp
  qed
  from consumption_loop [OF loop this] show ?thesis by (simp add: consumption_inv_def)
qed

lemma translate_back_values:
  assumes "translate_back d1 d2 xs acc = Inr m'" and "map_of m' A = Some V"
  shows "map_of acc A = Some V \<or>
     (\<exists>a b B. (a, Single b) \<in> set xs \<and> map_of d1 a = Some A \<and> map_of d2 b = Some B \<and> V = Single B)"
  using assms
proof (induction xs arbitrary: acc)
  case Nil
  then show ?case by simp
next
  case (Cons kv xs)
  obtain key v where kv: "kv = (key, v)" by (cases kv) auto
  from Cons.prems(1) kv obtain ok b ov where
    ok: "map_of d1 key = Some ok" and v: "v = Single b" and ov: "map_of d2 b = Some ov"
    and rest: "translate_back d1 d2 xs (AList.update ok (Single ov) acc) = Inr m'"
    by (auto split: option.splits match_value.splits)
  from Cons.IH [OF rest Cons.prems(2)] show ?case
  proof
    assume "map_of (AList.update ok (Single ov) acc) A = Some V"
    then show ?thesis using ok v ov kv by (auto simp: update_conv' split: if_splits)
  next
    assume "\<exists>a b B. (a, Single b) \<in> set xs \<and> map_of d1 a = Some A \<and> map_of d2 b = Some B \<and> V = Single B"
    then show ?thesis by auto
  qed
qed

lemma simplify_strings_keys:
  assumes "simplify_strings xs True s = Inr d" and "is_set s"
  shows "\<exists>f. \<forall>k v. map_of d k = Some v \<longrightarrow> f v = k"
proof -
  define f where "f = (\<lambda>key. lower (split_join s key))"
  have key: "\<And>key. simplified_key True s key = Inr (f key)"
    using assms(2) by (simp add: simplified_key_def f_def)
  have "simplify_inv f {} ([], {})" by (simp add: simplify_inv_def)
  from simplify_loop_inv [OF this key, of xs] assms(1)
  have "simplify_inv f (set xs) (d, {})"
    by (auto simp: simplify_strings_def split: if_splits)
  then show ?thesis by (auto simp: simplify_inv_def)
qed


lemma manual_entry_other:
  assumes "manual_entry con md pool e (m, ans) = Inr (m', ans')" and "x \<noteq> e"
  shows "map_of m' x = map_of m x"
proof -
  from assms(1) have "m' = m \<or> (\<exists>v. m' = AList.update e v m)"
    by (auto simp: manual_entry_def Let_def split: if_splits sum.splits prod.splits option.splits)
  with assms(2) show ?thesis by (auto simp: update_conv')
qed

lemma manual_loop_other:
  "manual_loop con md pool entries (m, ans) = Inr (m', ans') \<Longrightarrow> x \<notin> set entries
     \<Longrightarrow> map_of m' x = map_of m x"
proof (induction entries arbitrary: m ans)
  case Nil
  then show ?case by simp
next
  case (Cons e rest)
  from Cons.prems(1) obtain m1 ans1 where
    step: "manual_entry con md pool e (m, ans) = Inr (m1, ans1)"
    and run: "manual_loop con md pool rest (m1, ans1) = Inr (m', ans')"
    by (auto split: sum.splits)
  from Cons.IH [OF run] Cons.prems(2) manual_entry_other [OF step, of x] show ?case by simp
qed

lemma manual_entry_auto:
  assumes "similarities_by_entry pool e = (s1, [b]) # (s2, bs2) # others" and "md < s1 - s2"
  shows "manual_entry con md pool e (m, ans) = Inr (AList.update e (Single b) m, ans)"
  using assms by (simp add: manual_entry_def Let_def)

lemma manual_loop_auto:
  assumes "manual_loop con md pool entries (m, ans) = Inr (m', ans')"
    and "distinct entries" and "e \<in> set entries"
    and "similarities_by_entry pool e = (s1, [b]) # (s2, bs2) # others" and "md < s1 - s2"
  shows "map_of m' e = Some (Single b)"
  using assms(1,2,3)
proof (induction entries arbitrary: m ans)
  case Nil
  then show ?case by simp
next
  case (Cons x rest)
  from Cons.prems(1) obtain m1 ans1 where
    step: "manual_entry con md pool x (m, ans) = Inr (m1, ans1)"
    and run: "manual_loop con md pool rest (m1, ans1) = Inr (m', ans')"
    by (auto split: sum.splits)
  show ?case
  proof (cases "x = e")
    case True
    with step manual_entry_auto [OF assms(4,5), of con m ans]
    have "m1 = AList.update e (Single b) m" by simp
    moreover from Cons.prems(2) True have "e \<notin> set rest" by simp
    ultimately show ?thesis using manual_loop_other [OF run] by (simp add: update_conv')
  next
    case False
    with Cons.prems have "distinct rest" "e \<in> set rest" by auto
    from Cons.IH [OF run this] show ?thesis .
  qed
qed


section \<open>Properties of the score\<close>

text \<open>
  The blocks of \<open>matching_blocks\<close> lie in disjoint parts of both strings, so their sizes add
  up to at most either length, and when they add up to both lengths the strings agree
  position by position.
\<close>

lemma sizes_simps [simp]:
  "sizes [] = 0" "sizes ((i, j, k) # bl) = k + sizes bl" "sizes (xs @ ys) = sizes xs + sizes ys"
  by (simp_all add: sizes_def)

lemma collapse_sizes: "sizes (collapse (i1, j1, k1) bl) = k1 + sizes bl"
  by (induction bl arbitrary: i1 j1 k1) auto

lemma sizes_insort: "sizes (insort x bl) = sizes [x] + sizes bl"
  by (induction bl) (auto simp: sizes_def)

lemma sizes_sort: "sizes (sort bl) = sizes bl"
proof (induction bl)
  case Nil
  then show ?case by simp
next
  case (Cons x bl)
  obtain i j k where x: "x = (i, j, k)" by (cases x) auto
  from Cons show ?case by (simp add: sizes_insort x)
qed

lemma ratio_sizes:
  "ratio a b = calculate_ratio (sizes (matching_blocks a b 0 (length a) 0 (length b))) (length a + length b)"
  by (simp add: ratio_def get_matching_blocks_def sizes_def [symmetric] collapse_sizes sizes_sort)

lemma matching_blocks_cover:
  "alo \<le> ahi \<Longrightarrow> blo \<le> bhi \<Longrightarrow>
     sizes (matching_blocks a b alo ahi blo bhi) \<le> ahi - alo
   \<and> sizes (matching_blocks a b alo ahi blo bhi) \<le> bhi - blo
   \<and> (sizes (matching_blocks a b alo ahi blo bhi) = ahi - alo
        \<and> sizes (matching_blocks a b alo ahi blo bhi) = bhi - blo
      \<longrightarrow> (\<forall>t < ahi - alo. a ! (alo + t) = b ! (blo + t)))"
proof (induction a b alo ahi blo bhi rule: matching_blocks.induct)
  case (1 a b alo ahi blo bhi)
  obtain i j k where flm: "find_longest_match a b alo ahi blo bhi = (i, j, k)"
    by (cases "find_longest_match a b alo ahi blo bhi") auto
  show ?case
  proof (cases "k = 0")
    case True
    with flm have mb: "matching_blocks a b alo ahi blo bhi = []"
      by (simp add: matching_blocks.simps [of a b alo ahi blo bhi])
    have "\<forall>t < ahi - alo. a ! (alo + t) = b ! (blo + t)" if "0 = ahi - alo"
      using that by simp
    with mb show ?thesis by auto
  next
    case False
    with find_longest_match_ok [of a b alo ahi blo bhi] flm have
      ok: "0 < k" "alo \<le> i" "i + k \<le> ahi" "blo \<le> j" "j + k \<le> bhi"
      and eq: "\<forall>t<k. a ! (i + t) = b ! (j + t)"
      by (auto simp: block_ok_def)
    define R where "R = (if i + k < ahi \<and> j + k < bhi then matching_blocks a b (i + k) ahi (j + k) bhi else [])"
    define L where "L = (if alo < i \<and> blo < j then matching_blocks a b alo i blo j else [])"
    have mb: "sizes (matching_blocks a b alo ahi blo bhi) = k + sizes R + sizes L"
      using flm False by (simp add: matching_blocks.simps [of a b alo ahi blo bhi] R_def L_def)
    have R: "sizes R \<le> ahi - (i + k) \<and> sizes R \<le> bhi - (j + k)
       \<and> (sizes R = ahi - (i + k) \<and> sizes R = bhi - (j + k)
          \<longrightarrow> (\<forall>t < ahi - (i + k). a ! (i + k + t) = b ! (j + k + t)))"
    proof (cases "i + k < ahi \<and> j + k < bhi")
      case True
      with "1.IH"(1) [OF flm [symmetric] refl False True] ok show ?thesis by (simp add: R_def)
    next
      case False
      then show ?thesis by (auto simp: R_def)
    qed
    have L: "sizes L \<le> i - alo \<and> sizes L \<le> j - blo
       \<and> (sizes L = i - alo \<and> sizes L = j - blo \<longrightarrow> (\<forall>t < i - alo. a ! (alo + t) = b ! (blo + t)))"
    proof (cases "alo < i \<and> blo < j")
      case True
      with "1.IH"(2) [OF flm [symmetric] refl False True] ok show ?thesis by (simp add: L_def)
    next
      case False
      then show ?thesis by (auto simp: L_def)
    qed
    from R have r1: "sizes R \<le> ahi - (i + k)" and r2: "sizes R \<le> bhi - (j + k)" by blast+
    from L have l1: "sizes L \<le> i - alo" and l2: "sizes L \<le> j - blo" by blast+
    have b1: "sizes (matching_blocks a b alo ahi blo bhi) \<le> ahi - alo"
      using mb r1 l1 ok(2,3) by linarith
    have b2: "sizes (matching_blocks a b alo ahi blo bhi) \<le> bhi - blo"
      using mb r2 l2 ok(4,5) by linarith
    have b3: "\<forall>t < ahi - alo. a ! (alo + t) = b ! (blo + t)"
      if full: "sizes (matching_blocks a b alo ahi blo bhi) = ahi - alo"
        "sizes (matching_blocks a b alo ahi blo bhi) = bhi - blo"
    proof (intro allI impI)
      fix t assume t: "t < ahi - alo"
      from full(1) mb r1 l1 ok(2,3) have sl1: "sizes L = i - alo" and sr1: "sizes R = ahi - (i + k)"
        by linarith+
      from full(2) mb r2 l2 ok(4,5) have sl2: "sizes L = j - blo" and sr2: "sizes R = bhi - (j + k)"
        by linarith+
      note sl = sl1 sl2 and sr = sr1 sr2
      from sl have off: "i - alo = j - blo" by simp
      from L sl have left: "\<forall>t < i - alo. a ! (alo + t) = b ! (blo + t)" by blast
      from R sr have right: "\<forall>t < ahi - (i + k). a ! (i + k + t) = b ! (j + k + t)" by blast
      consider "t < i - alo" | "i - alo \<le> t" "t < i - alo + k" | "i - alo + k \<le> t" by linarith
      then show "a ! (alo + t) = b ! (blo + t)"
      proof cases
        case 1
        with left show ?thesis by blast
      next
        case 2
        then have "t - (i - alo) < k" by linarith
        with eq have "a ! (i + (t - (i - alo))) = b ! (j + (t - (i - alo)))" by blast
        moreover have "i + (t - (i - alo)) = alo + t" using 2 ok by linarith
        moreover have "j + (t - (i - alo)) = blo + t" using 2 ok off by linarith
        ultimately show ?thesis by metis
      next
        case 3
        then have "t - (i - alo + k) < ahi - (i + k)" using t ok by linarith
        with right have "a ! (i + k + (t - (i - alo + k))) = b ! (j + k + (t - (i - alo + k)))" by blast
        moreover have "i + k + (t - (i - alo + k)) = alo + t" using 3 ok by linarith
        moreover have "j + k + (t - (i - alo + k)) = blo + t" using 3 ok off by linarith
        ultimately show ?thesis by metis
      qed
    qed
    from b1 b2 b3 show ?thesis by blast
  qed
qed

lemma ratio_bounds: "0 \<le> ratio a b \<and> ratio a b \<le> 1"
proof -
  let ?M = "sizes (matching_blocks a b 0 (length a) 0 (length b))"
  from matching_blocks_cover [of 0 "length a" 0 "length b" a b]
  have "?M \<le> length a" "?M \<le> length b" by auto
  then have "2 * ?M \<le> length a + length b" by linarith
  then have "2 * (of_nat ?M :: rat) \<le> of_nat (length a + length b)"
    by (metis of_nat_le_iff of_nat_mult of_nat_numeral)
  then show ?thesis
    by (auto simp: ratio_sizes calculate_ratio_def divide_le_eq_1)
qed

lemma ratio_one_imp_eq:
  assumes "ratio a b = 1"
  shows "a = b"
proof (cases "length a + length b = 0")
  case True
  then show ?thesis by simp
next
  case False
  let ?M = "sizes (matching_blocks a b 0 (length a) 0 (length b))"
  from matching_blocks_cover [of 0 "length a" 0 "length b" a b]
  have le: "?M \<le> length a" "?M \<le> length b"
    and full: "?M = length a \<and> ?M = length b \<longrightarrow> (\<forall>t < length a. a ! t = b ! t)"
    by auto
  from assms False have "2 * (of_nat ?M :: rat) = of_nat (length a + length b)"
    by (simp add: ratio_sizes calculate_ratio_def)
  then have "2 * ?M = length a + length b"
    by (metis of_nat_eq_iff of_nat_mult of_nat_numeral)
  with le have "?M = length a" "?M = length b" by linarith+
  with full show ?thesis by (auto intro: nth_equalityI)
qed

text \<open>
  A string compared with itself: after every row the best block lies on the diagonal and is
  at least as long as every run of characters that are not popular, so only the diagonal
  entry of a row can replace it. The two extension loops then stretch the block over the
  whole string, popular characters included.
\<close>

lemma flm_row_fold:
  "\<forall>j\<in>set js. blo \<le> j \<and> j < bhi \<Longrightarrow>
   flm_row blo bhi i j2len js new best =
     (fold (\<lambda>j nw. nw(j \<mapsto> row_entry j2len j)) js new, fold (row_best i j2len) js best)"
proof (induction js arbitrary: new best)
  case Nil
  then show ?case by simp
next
  case (Cons j js)
  obtain bi bj bs where best: "best = (bi, bj, bs)" by (cases best) auto
  from Cons.prems have j: "\<not> j < blo" "\<not> bhi \<le> j" and rest: "\<forall>j\<in>set js. blo \<le> j \<and> j < bhi"
    by auto
  show ?case
    unfolding best using j Cons.IH [OF rest]
    by (simp add: Let_def row_entry_def row_best_def)
qed

lemma fold_entries:
  "fold (\<lambda>j nw. nw(j \<mapsto> f j)) js new x = (if x \<in> set js then Some (f x) else new x)"
  by (induction js arbitrary: new) auto

lemma fold_row_best_keep:
  "\<forall>j\<in>set js. row_entry j2len j \<le> bs \<Longrightarrow> fold (row_best i j2len) js (bi, bj, bs) = (bi, bj, bs)"
  by (induction js) (auto simp: row_best_def)

lemma b2j_self_split:
  assumes "i < length a" and "\<not> popular a (a ! i)"
  shows "b2j a (a ! i) = filter (\<lambda>j. a ! j = a ! i) [0..<i] @ [i] @ filter (\<lambda>j. a ! j = a ! i) [Suc i..<length a]"
proof -
  have "[0..<length a] = [0..<i] @ [i..<length a]"
    using upt_add_eq_append [of 0 i "length a - i"] assms(1) by simp
  also have "[i..<length a] = i # [Suc i..<length a]"
    by (rule upt_conv_Cons [OF assms(1)])
  finally have "[0..<length a] = [0..<i] @ [i] @ [Suc i..<length a]" by simp
  then have "filter (\<lambda>j. a ! j = a ! i) [0..<length a]
      = filter (\<lambda>j. a ! j = a ! i) ([0..<i] @ [i] @ [Suc i..<length a])" by simp
  with assms(2) show ?thesis by (simp add: b2j_def)
qed

lemma row_entry_le:
  assumes "diag_j2len a i j2len" and "\<not> popular a (a ! j)"
  shows "row_entry j2len j \<le> run_len a (Suc j)" and "row_entry j2len j \<le> run_len a i + 1"
proof -
  have "j2lenget j2len j \<le> run_len a j \<and> j2lenget j2len j \<le> run_len a i"
  proof (cases "j = 0 \<or> j2len (j - 1) = None")
    case True
    then show ?thesis by (auto simp: j2lenget_def)
  next
    case False
    then obtain v where v: "j2len (j - 1) = Some v" and j: "0 < j" by auto
    with assms(1) have "v \<le> run_len a (Suc (j - 1))" "v \<le> run_len a i"
      unfolding diag_j2len_def by blast+
    with v j show ?thesis by (simp add: j2lenget_def)
  qed
  with assms(2) show "row_entry j2len j \<le> run_len a (Suc j)" "row_entry j2len j \<le> run_len a i + 1"
    by (simp_all add: row_entry_def)
qed

lemma flm_row_diag:
  assumes i: "i < length a"
    and J: "diag_j2len a i j2len"
    and B: "diag_best a i best"
    and run: "flm_row 0 (length a) i j2len (b2j a (a ! i)) Map.empty best = (new', best')"
  shows "diag_j2len a (Suc i) new' \<and> diag_best a (Suc i) best'"
proof (cases "popular a (a ! i)")
  case True
  with run have "new' = Map.empty" "best' = best" by (simp_all add: b2j_def)
  with True B show ?thesis
    by (auto simp: diag_j2len_def diag_best_def j2lenget_def less_Suc_eq)
next
  case False
  obtain bi bj bs where best: "best = (bi, bj, bs)" by (cases best) auto
  with B have d: "bi = bj" and bs: "\<forall>j<i. run_len a (Suc j) \<le> bs" by (auto simp: diag_best_def)
  let ?P = "\<lambda>j. a ! j = a ! i"
  let ?js1 = "filter ?P [0..<i]" and ?js2 = "filter ?P [Suc i..<length a]"
  have js: "b2j a (a ! i) = ?js1 @ [i] @ ?js2" by (rule b2j_self_split [OF i False])
  have inb: "\<forall>j\<in>set (b2j a (a ! i)). 0 \<le> j \<and> j < length a" using i by (auto simp: js)
  have np: "\<not> popular a (a ! j)" if "j \<in> set (b2j a (a ! i))" for j
    using that False i by (auto simp: js)
  from run have new': "new' = fold (\<lambda>j nw. nw(j \<mapsto> row_entry j2len j)) (b2j a (a ! i)) Map.empty"
    and best': "best' = fold (row_best i j2len) (b2j a (a ! i)) best"
    unfolding flm_row_fold [OF inb] by simp_all
  have ki: "row_entry j2len i = run_len a (Suc i)"
    using J False by (simp add: diag_j2len_def row_entry_def)
  have keep1: "fold (row_best i j2len) ?js1 (bi, bj, bs) = (bi, bj, bs)"
  proof (rule fold_row_best_keep, rule ballI)
    fix j assume j: "j \<in> set ?js1"
    then have "j \<in> set (b2j a (a ! i))" by (simp add: js)
    from row_entry_le(1) [OF J np [OF this]] bs j show "row_entry j2len j \<le> bs" by auto
  qed
  define best1 where "best1 = row_best i j2len i (bi, bj, bs)"
  have "\<exists>ci cs. best1 = (ci, ci, cs) \<and> bs \<le> cs \<and> row_entry j2len i \<le> cs"
    unfolding best1_def row_best_def using d by (cases "bs < row_entry j2len i") simp_all
  then obtain ci cs where best1: "best1 = (ci, ci, cs)" and cs0: "bs \<le> cs" "row_entry j2len i \<le> cs"
    by blast
  from cs0 have cs: "bs \<le> cs" "run_len a (Suc i) \<le> cs" unfolding ki by simp_all
  have keep2: "fold (row_best i j2len) ?js2 (ci, ci, cs) = (ci, ci, cs)"
  proof (rule fold_row_best_keep, rule ballI)
    fix j assume j: "j \<in> set ?js2"
    then have "j \<in> set (b2j a (a ! i))" by (simp add: js)
    from row_entry_le(2) [OF J np [OF this]] cs False show "row_entry j2len j \<le> cs" by simp
  qed
  have "best' = (ci, ci, cs)"
    unfolding best' js best fold_append o_apply keep1
    using keep2 best1 by (simp add: best1_def)
  moreover have "\<forall>j<Suc i. run_len a (Suc j) \<le> cs"
    using bs cs by (auto simp: less_Suc_eq)
  ultimately have B': "diag_best a (Suc i) best'" by (simp add: diag_best_def)
  have ent: "new' j = (if j \<in> set (b2j a (a ! i)) then Some (row_entry j2len j) else None)" for j
    unfolding new' by (simp add: fold_entries)
  have J1: "v \<le> run_len a (Suc j) \<and> v \<le> run_len a (Suc i)" if "new' j = Some v" for j v
  proof -
    from that ent [of j] have j: "j \<in> set (b2j a (a ! i))" and v: "v = row_entry j2len j"
      by (auto split: if_splits)
    from row_entry_le [OF J np [OF j]] False v show ?thesis by simp
  qed
  have "i \<in> set (b2j a (a ! i))" by (simp add: js)
  with ent [of i] ki have "j2lenget new' (Suc i) = run_len a (Suc i)"
    by (simp add: j2lenget_def)
  with J1 have "diag_j2len a (Suc i) new'" unfolding diag_j2len_def by blast
  with B' show ?thesis by simp
qed

lemma flm_rows_diag:
  assumes "diag_j2len a i j2len" and "diag_best a i best" and "i \<le> length a"
  shows "\<exists>d k. flm_rows a a 0 (length a) [i..<length a] j2len best = (d, d, k)"
  using assms
proof (induction "length a - i" arbitrary: i j2len best)
  case 0
  then have "[i..<length a] = []" by simp
  with 0 show ?case by (cases best) (auto simp: diag_best_def)
next
  case (Suc m)
  then have i: "i < length a" by simp
  then have upt: "[i..<length a] = i # [Suc i..<length a]" by (rule upt_conv_Cons)
  obtain new' best' where row: "flm_row 0 (length a) i j2len (b2j a (a ! i)) Map.empty best = (new', best')"
    by (cases "flm_row 0 (length a) i j2len (b2j a (a ! i)) Map.empty best") auto
  from flm_row_diag [OF i Suc.prems(1,2) row]
  have J: "diag_j2len a (Suc i) new'" and B: "diag_best a (Suc i) best'" by simp_all
  from Suc.hyps(2) have m: "m = length a - Suc i" by simp
  from Suc.hyps(1) [OF m J B] i
  show ?case unfolding upt by (simp add: row)
qed

lemma extend_left_diag: "extend_left a a 0 0 d d k = (0, 0, k + d)"
proof (induction d arbitrary: k)
  case 0
  then show ?case by (simp add: extend_left.simps [of a a 0 0 0 0])
next
  case (Suc d)
  then show ?case by (simp add: extend_left.simps [of a a 0 0 "Suc d" "Suc d"])
qed

lemma extend_right_diag: "extend_right a a n n 0 0 k = (0, 0, max k n)"
proof (induction "n - k" arbitrary: k)
  case 0
  then show ?case by (simp add: extend_right.simps [of a a n n 0 0 k] max_def)
next
  case (Suc m)
  then have "m = n - (k + 1)" "k < n" by simp_all
  with Suc.hyps(1) [of "k + 1"] show ?case
    by (simp add: extend_right.simps [of a a n n 0 0 k] max_def)
qed

lemma find_longest_match_self: "find_longest_match a a 0 (length a) 0 (length a) = (0, 0, length a)"
proof -
  have "diag_j2len a 0 Map.empty" "diag_best a 0 (0, 0, 0)"
    by (simp_all add: diag_j2len_def diag_best_def j2lenget_def)
  from flm_rows_diag [OF this]
  obtain d k where "flm_rows a a 0 (length a) [0..<length a] Map.empty (0, 0, 0) = (d, d, k)" by auto
  then have flm: "find_longest_match a a 0 (length a) 0 (length a) = (0, 0, max (k + d) (length a))"
    by (simp add: find_longest_match_def extend_left_diag extend_right_diag)
  with find_longest_match_ok [of a a 0 "length a" 0 "length a"]
  have "max (k + d) (length a) \<le> length a" by (auto simp: block_ok_def)
  then have "max (k + d) (length a) = length a" by simp
  with flm show ?thesis by simp
qed

lemma matching_blocks_self:
  "matching_blocks a a 0 (length a) 0 (length a) = (if a = [] then [] else [(0, 0, length a)])"
  by (simp add: matching_blocks.simps [of a a 0 "length a" 0 "length a"] find_longest_match_self)

lemma ratio_self: "ratio a a = 1"
  by (simp add: ratio_sizes matching_blocks_self calculate_ratio_def)

section \<open>Claim C1: every source label in exactly one of match and no\_match\<close>

text \<open>
  C1 fails in \<^verbatim>\<open>match_similar\<close> when its own lower-casing maps two labels of
  \<^verbatim>\<open>list_for_matching\<close> to one string: unlike \<^verbatim>\<open>simplify_strings\<close>, which raises, the
  dict comprehension \<^verbatim>\<open>{value.lower(): value ...}\<close> keeps the last label only. For
  \<^verbatim>\<open>match_similar(["A", "a"], ["b"], simplify_with="capital")\<close> the call returns an empty
  \<^verbatim>\<open>match\<close> and \<^verbatim>\<open>no_match = {"a"}\<close>: the label \<^verbatim>\<open>"A"\<close> is in neither.
\<close>

theorem match_similar_collision_drops_label:
  "match_similar con answers [''A'', ''a''] [''b''] Capital True True False (1 / 10) (6 / 10)
     = Inr ([], {''a''}, [''A'', ''a''], [''b''])"
  by code_simp

section \<open>Claim C2: direct matches\<close>

text \<open>
  C2 fails in \<^verbatim>\<open>match_similar\<close> for the same reason as C1: after lower-casing
  \<^verbatim>\<open>["ABCD", "abcd"]\<close> the working list holds \<^verbatim>\<open>"abcd"\<close> twice. The first copy is matched
  directly to the target \<^verbatim>\<open>"abcd"\<close> and removed; the second copy stays in the pool, is
  scored against the remaining target \<^verbatim>\<open>"abce"\<close> and overwrites the direct match. The
  call returns \<^verbatim>\<open>{"abcd": "abce"}\<close>, although the source label \<^verbatim>\<open>"abcd"\<close> is equal to
  the target label \<^verbatim>\<open>"abcd"\<close>.
\<close>

theorem match_similar_collision_overrides_direct_match:
  "match_similar con answers [''ABCD'', ''abcd''] [''abcd'', ''abce''] Capital True True False
       (1 / 10) (6 / 10)
     = Inr ([(''abcd'', Single ''abce'')], {}, [''ABCD'', ''abcd''], [''abcd'', ''abce''])"
  by code_simp

section \<open>Claim C3: the similarity limit\<close>

text \<open>
  C3 (as amended). In \<^verbatim>\<open>match_similar\<close> (without simplification), whenever the call
  returns: a single target recorded for a source label either is that label itself (a
  direct match) or has a score above \<^verbatim>\<open>similarity_limit_for_manual_checking\<close> with it;
  in the per-entry greedy and the interactive strategy every member of a recorded list
  has a score above the limit; and in every strategy a source label that is not matched
  directly and has no score above the limit is in \<^verbatim>\<open>no_match\<close>. (\<^verbatim>\<open>match_comprehensive\<close>
  has no limit: see the counterexample below.)
\<close>

theorem similarity_limit_respected:
  assumes run: "match_similar con answers lfm ltbmt SimplifyFalse ama smo ecc md limit = Inr (m, nm, l1, l2)"
  shows "(\<forall>a b. map_of m a = Some (Single b) \<longrightarrow> a = b \<or> limit < ratio a b)
       \<and> (\<not> (ama \<and> ecc) \<longrightarrow>
            (\<forall>a bs b. map_of m a = Some (Tied bs) \<and> b \<in> set bs \<longrightarrow> limit < ratio a b))
       \<and> (\<forall>a \<in> set lfm. a \<notin> set ltbmt \<and> (\<forall>b \<in> set ltbmt. ratio a b \<le> limit) \<longrightarrow> a \<in> nm)"
proof -
  let ?src = "source_pool lfm ltbmt" and ?pool = "target_pool lfm ltbmt"
  have low: "\<forall>b \<in> set ?pool. ratio a b \<le> limit" if "\<forall>b \<in> set ltbmt. ratio a b \<le> limit" for a
    using that by (simp add: target_pool_def)
  consider (greedy) "ama" "\<not> ecc" | (global) "ama" "ecc" | (interactive) "\<not> ama" by blast
  then show ?thesis
  proof cases
    case greedy
    with run have r: "match_similar con answers lfm ltbmt SimplifyFalse True smo False md limit
        = Inr (m, nm, l1, l2)" by simp
    from per_entry_greedy_run [OF r] have
      mp: "\<And>a. map_of m a =
            (if a \<in> set ?src \<and> top_group limit ?pool a \<noteq> []
             then group_value (top_group limit ?pool a)
             else if a \<in> set lfm \<and> a \<in> set ltbmt then Some (Single a) else None)"
      and s1: "set l1 = set ?src - {a. top_group limit ?pool a \<noteq> []}"
      and nm: "nm = set l1"
      by auto
    have vals: "limit < ratio a b \<or> (v = Single a \<and> a = b)"
      if "map_of m a = Some v" "b \<in> members v" for a v b
    proof (cases "a \<in> set ?src \<and> top_group limit ?pool a \<noteq> []")
      case True
      with mp [of a] that(1) have "group_value (top_group limit ?pool a) = Some v" by simp
      from group_value_members [OF this] that(2) top_group_member show ?thesis by blast
    next
      case False
      with mp [of a] that show ?thesis by (auto simp: members_def split: if_splits)
    qed
    have c1: "\<forall>a b. map_of m a = Some (Single b) \<longrightarrow> a = b \<or> limit < ratio a b"
    proof (intro allI impI)
      fix a b assume h: "map_of m a = Some (Single b)"
      have "b \<in> members (Single b)" by (simp add: members_def)
      from vals [OF h this] show "a = b \<or> limit < ratio a b" by blast
    qed
    have c2: "\<forall>a bs b. map_of m a = Some (Tied bs) \<and> b \<in> set bs \<longrightarrow> limit < ratio a b"
    proof (intro allI impI)
      fix a bs b assume h: "map_of m a = Some (Tied bs) \<and> b \<in> set bs"
      then have "b \<in> members (Tied bs)" by (simp add: members_def)
      from vals [OF _ this] h show "limit < ratio a b" by blast
    qed
    have c3: "\<forall>a \<in> set lfm. a \<notin> set ltbmt \<and> (\<forall>b \<in> set ltbmt. ratio a b \<le> limit) \<longrightarrow> a \<in> nm"
      using s1 nm top_group_Nil [OF low] by (auto simp: source_pool_def)
    from c1 c2 c3 show ?thesis by blast
  next
    case global
    with run have r: "match_similar con answers lfm ltbmt SimplifyFalse True smo True md limit
        = Inr (m, nm, l1, l2)" by simp
    let ?rows = "similarity_rows (all_similarities limit ?src ?pool)"
    from global_greedy_run [OF r] obtain m0 df where
      loop: "comprehensive_loop False 0 (m0, ?rows) = Inr (m, df)"
      and m0: "\<forall>a. map_of m0 a = (if a \<in> set lfm \<and> a \<in> set ltbmt then Some (Single a) else None)"
      and nm: "nm = {x \<in> set ?src. map_of m x = None}"
      by blast
    have rows: "s = ratio a b \<and> limit < s \<and> a \<in> set ?src \<and> b \<in> set ?pool"
      if "(s, a, b) \<in> set ?rows" for s a b
      using similarity_rows_ok [OF all_similarities_ok that] .
    define I where "I = (\<lambda>(m :: match_dict) (df :: row list). set df \<subseteq> set ?rows \<and>
      (\<forall>a v. map_of m a = Some v \<longrightarrow> map_of m0 a = Some v \<or>
         ((\<exists>s b. (s, a, b) \<in> set ?rows) \<and> (\<forall>b. v = Single b \<longrightarrow> (\<exists>s. (s, a, b) \<in> set ?rows)))))"
    have "I m df"
    proof (rule comprehensive_loop_invariant [where I = I, OF loop])
      show "I m0 ?rows" by (simp add: I_def)
    next
      fix m df s a b df'
      assume "I m df" "(s, a, b) \<in> set df" "set df' \<subseteq> set (drop_entries a b df)"
      then show "I (AList.update a (Single b) m) df'"
        by (auto simp: I_def update_conv' drop_entries_set split: if_splits)
    next
      fix m df s a b mm
      assume "I m df" "(s, a, b) \<in> set df"
      then show "I (AList.update a (Tied mm) m) (drop_entries a b df)"
        by (auto simp: I_def update_conv' drop_entries_set split: if_splits)
    next
      fix m df s a b
      assume "I m df" "(s, a, b) \<in> set df"
      then show "I m (drop_entries a b df)"
        by (auto simp: I_def drop_entries_set)
    qed
    then have fin: "\<And>a v. map_of m a = Some v \<Longrightarrow> map_of m0 a = Some v \<or>
         ((\<exists>s b. (s, a, b) \<in> set ?rows) \<and> (\<forall>b. v = Single b \<longrightarrow> (\<exists>s. (s, a, b) \<in> set ?rows)))"
      by (simp add: I_def)
    have c1: "a = b \<or> limit < ratio a b" if "map_of m a = Some (Single b)" for a b
      using fin [OF that] m0 rows by (auto split: if_splits)
    have c3: "a \<in> nm"
      if "a \<in> set lfm" "a \<notin> set ltbmt" "\<forall>b \<in> set ltbmt. ratio a b \<le> limit" for a
    proof -
      have "map_of m a = None"
      proof (rule ccontr)
        assume "map_of m a \<noteq> None"
        then obtain v where "map_of m a = Some v" by auto
        from fin [OF this] m0 that(2) obtain s b where "(s, a, b) \<in> set ?rows" by auto
        from rows [OF this] low [OF that(3)] show False by auto
      qed
      with that nm show ?thesis by (simp add: source_pool_def)
    qed
    from c1 c3 global show ?thesis by blast
  next
    case interactive
    with run have r: "match_similar con answers lfm ltbmt SimplifyFalse False smo ecc md limit
        = Inr (m, nm, l1, l2)" by simp
    from interactive_run [OF r] obtain m0 nml ans' where
      loop: "interactive_loop con md (most_similar limit ?pool) ?src (m0, [], answers) = Inr (m, nml, ans')"
      and m0: "\<forall>a. map_of m0 a = (if a \<in> set lfm \<and> a \<in> set ltbmt then Some (Single a) else None)"
      and nm: "nm = set nml" and d: "distinct lfm"
      by blast
    from interactive_loop_spec [OF loop] have
      v: "\<And>a v. map_of m a = Some v \<Longrightarrow>
            map_of m0 a = Some v \<or> (a \<in> set ?src \<and> (\<exists>k. map_of (most_similar limit ?pool a) k = Some v))"
      and nomatch: "distinct ?src \<longrightarrow>
          (\<forall>a \<in> set ?src. most_similar limit ?pool a = [] \<and> map_of m0 a = None \<longrightarrow> a \<in> set nml)"
      by blast+
    have vals: "limit < ratio a b \<or> (v = Single a \<and> a = b)"
      if "map_of m a = Some v" "b \<in> members v" for a v b
      using v [OF that(1)] m0 that(2) most_similar_value_members [of limit ?pool a _ v b]
      by (auto simp: members_def split: if_splits)
    have c1: "\<forall>a b. map_of m a = Some (Single b) \<longrightarrow> a = b \<or> limit < ratio a b"
    proof (intro allI impI)
      fix a b assume h: "map_of m a = Some (Single b)"
      have "b \<in> members (Single b)" by (simp add: members_def)
      from vals [OF h this] show "a = b \<or> limit < ratio a b" by blast
    qed
    have c2: "\<forall>a bs b. map_of m a = Some (Tied bs) \<and> b \<in> set bs \<longrightarrow> limit < ratio a b"
    proof (intro allI impI)
      fix a bs b assume h: "map_of m a = Some (Tied bs) \<and> b \<in> set bs"
      then have "b \<in> members (Tied bs)" by (simp add: members_def)
      from vals [OF _ this] h show "limit < ratio a b" by blast
    qed
    have c3: "\<forall>a \<in> set lfm. a \<notin> set ltbmt \<and> (\<forall>b \<in> set ltbmt. ratio a b \<le> limit) \<longrightarrow> a \<in> nm"
      using nomatch d m0 nm most_similar_Nil [OF low] by (auto simp: source_pool_def)
    from c1 c2 c3 show ?thesis by blast
  qed
qed


text \<open>
  Witness for C3: a direct match, a tie, a single fuzzy match and a label without any
  candidate in one per-entry greedy run.
\<close>

theorem similarity_limit_respected_witness:
  "match_similar \<lparr>window_width = 200, list_repr_len = (\<lambda>l. 2)\<rparr> [] [''Apple'', ''abc1'', ''Oranje'', ''kiwi'']
       [''Apple'', ''abc2'', ''abc3'', ''Orange'', ''melon''] SimplifyFalse True True False
       (1 / 10) (6 / 10)
     = Inr ([(''Apple'', Single ''Apple''), (''abc1'', Tied [''abc2'', ''abc3'']),
             (''Oranje'', Single ''Orange'')], {''kiwi''}, [''kiwi''], [''melon''])
   \<and> (''Oranje'' = ''Orange'' \<or> 6 / 10 < ratio ''Oranje'' ''Orange'')
   \<and> 6 / 10 < ratio ''abc1'' ''abc3''
   \<and> ''kiwi'' \<in> {''kiwi''}"
proof -
  have run: "match_similar \<lparr>window_width = 200, list_repr_len = (\<lambda>l. 2)\<rparr> [] [''Apple'', ''abc1'', ''Oranje'', ''kiwi'']
       [''Apple'', ''abc2'', ''abc3'', ''Orange'', ''melon''] SimplifyFalse True True False
       (1 / 10) (6 / 10)
     = Inr ([(''Apple'', Single ''Apple''), (''abc1'', Tied [''abc2'', ''abc3'']),
             (''Oranje'', Single ''Orange'')], {''kiwi''}, [''kiwi''], [''melon''])"
    by code_simp
  have h1: "map_of [(''Apple'', Single ''Apple''), (''abc1'', Tied [''abc2'', ''abc3'']),
             (''Oranje'', Single ''Orange'')] ''Oranje'' = Some (Single ''Orange'')"
    by simp
  have h2: "map_of [(''Apple'', Single ''Apple''), (''abc1'', Tied [''abc2'', ''abc3'']),
             (''Oranje'', Single ''Orange'')] ''abc1'' = Some (Tied [''abc2'', ''abc3''])
      \<and> ''abc3'' \<in> set [''abc2'', ''abc3'']"
    by simp
  have h3: "\<forall>b \<in> set [''Apple'', ''abc2'', ''abc3'', ''Orange'', ''melon'']. ratio ''kiwi'' b \<le> 6 / 10"
    by code_simp
  have h4: "''kiwi'' \<in> set [''Apple'', ''abc1'', ''Oranje'', ''kiwi'']
      \<and> ''kiwi'' \<notin> set [''Apple'', ''abc2'', ''abc3'', ''Orange'', ''melon'']"
    by simp
  from similarity_limit_respected [OF run] h1 h2 h3 h4
  have "''Oranje'' = ''Orange'' \<or> 6 / 10 < ratio ''Oranje'' ''Orange''"
    and "6 / 10 < ratio ''abc1'' ''abc3''"
    and "''kiwi'' \<in> {''kiwi''}"
    by blast+
  with run show ?thesis by blast
qed

text \<open>
  Counterexample to C3 as stated: \<^verbatim>\<open>match_comprehensive(["xyz123"], ["qqq789"], False)\<close>
  matches the two labels although their score is 0.
\<close>

theorem match_comprehensive_ignores_limit:
  "match_comprehensive [''xyz123''] [''qqq789''] NoSimplifier
     = Inr ([(''xyz123'', Single ''qqq789'')], {}, [''xyz123''], [''qqq789''])
   \<and> ratio ''xyz123'' ''qqq789'' = 0"
  by code_simp

section \<open>Claim C4: ties in per-entry greedy matching\<close>

text \<open>
  C4 (as amended). In per-entry greedy matching (\<^verbatim>\<open>auto_match_all=True\<close>,
  \<^verbatim>\<open>enforce_comprehensive_check=False\<close>, no simplification), whenever the call returns:
  for every source label left after the direct matches whose highest score group above
  the limit holds two or more targets, the value recorded in \<^verbatim>\<open>match\<close> is the list of
  exactly those targets, and none of them is left in \<^verbatim>\<open>list_to_be_matched_to\<close>; and in
  this strategy a list is recorded only in that case. (It is not the only strategy that
  records a list for tied targets: see the counterexample below.)
\<close>

theorem per_entry_greedy_ties:
  assumes "match_similar con answers lfm ltbmt SimplifyFalse True smo False md limit = Inr (m, nm, l1, l2)"
  shows "(\<forall>a \<in> set (source_pool lfm ltbmt).
            2 \<le> length (top_group limit (target_pool lfm ltbmt) a) \<longrightarrow>
            map_of m a = Some (Tied (top_group limit (target_pool lfm ltbmt) a))
            \<and> set (top_group limit (target_pool lfm ltbmt) a) \<inter> set l2 = {})
       \<and> (\<forall>a bs. map_of m a = Some (Tied bs) \<longrightarrow>
            a \<in> set (source_pool lfm ltbmt) \<and> bs = top_group limit (target_pool lfm ltbmt) a
            \<and> 2 \<le> length bs)"
proof -
  let ?src = "source_pool lfm ltbmt" and ?pool = "target_pool lfm ltbmt"
  from per_entry_greedy_run [OF assms] have
    mp: "\<And>a. map_of m a =
            (if a \<in> set ?src \<and> top_group limit ?pool a \<noteq> []
             then group_value (top_group limit ?pool a)
             else if a \<in> set lfm \<and> a \<in> set ltbmt then Some (Single a) else None)"
    and s2: "set l2 = set ?pool
             - (\<Union>a \<in> {a \<in> set ?src. top_group limit ?pool a \<noteq> []}. set (top_group limit ?pool a))"
    by auto
  have gv2: "group_value bs = Some (Tied bs)" if "2 \<le> length bs" for bs :: "label list"
    using that by (cases bs rule: list.exhaust [case_product list.exhaust])
      (auto simp: group_value_def split: list.splits)
  have gvT: "bs = cs \<and> 2 \<le> length bs" if "group_value cs = Some (Tied bs)" for bs cs :: "label list"
    using that by (auto simp: group_value_def split: list.splits)
  have "map_of m a = Some (Tied (top_group limit ?pool a)) \<and> set (top_group limit ?pool a) \<inter> set l2 = {}"
    if "a \<in> set ?src" and "2 \<le> length (top_group limit ?pool a)" for a
  proof -
    from that have ne: "top_group limit ?pool a \<noteq> []" by auto
    with that mp [of a] gv2 have "map_of m a = Some (Tied (top_group limit ?pool a))" by simp
    moreover from s2 that(1) ne have "set (top_group limit ?pool a) \<inter> set l2 = {}" by auto
    ultimately show ?thesis by simp
  qed
  moreover have "a \<in> set ?src \<and> bs = top_group limit ?pool a \<and> 2 \<le> length bs"
    if "map_of m a = Some (Tied bs)" for a bs
    using that mp [of a] gvT [of "top_group limit ?pool a" bs] by (auto split: if_splits)
  ultimately show ?thesis by blast
qed


text \<open>
  Witness for C4: \<^verbatim>\<open>"abc1"\<close> scores 3/4 with both \<^verbatim>\<open>"abc2"\<close> and \<^verbatim>\<open>"abc3"\<close>.
\<close>

theorem per_entry_greedy_ties_witness:
  "match_similar \<lparr>window_width = 200, list_repr_len = (\<lambda>l. 2)\<rparr> [] [''abc1''] [''abc2'', ''abc3''] SimplifyFalse True True False (1 / 10) (6 / 10)
     = Inr ([(''abc1'', Tied [''abc2'', ''abc3''])], {}, [], [])
   \<and> ''abc1'' \<in> set (source_pool [''abc1''] [''abc2'', ''abc3''])
   \<and> 2 \<le> length (top_group (6 / 10) (target_pool [''abc1''] [''abc2'', ''abc3'']) ''abc1'')
   \<and> map_of [(''abc1'', Tied [''abc2'', ''abc3''])] ''abc1''
       = Some (Tied (top_group (6 / 10) (target_pool [''abc1''] [''abc2'', ''abc3'']) ''abc1''))"
proof -
  have run: "match_similar \<lparr>window_width = 200, list_repr_len = (\<lambda>l. 2)\<rparr> [] [''abc1''] [''abc2'', ''abc3''] SimplifyFalse True True False
       (1 / 10) (6 / 10)
     = Inr ([(''abc1'', Tied [''abc2'', ''abc3''])], {}, [], [])"
    by code_simp
  have h1: "''abc1'' \<in> set (source_pool [''abc1''] [''abc2'', ''abc3''])"
    by code_simp
  have h2: "2 \<le> length (top_group (6 / 10) (target_pool [''abc1''] [''abc2'', ''abc3'']) ''abc1'')"
    by code_simp
  from per_entry_greedy_ties [OF run] h1 h2
  have "map_of [(''abc1'', Tied [''abc2'', ''abc3''])] ''abc1''
       = Some (Tied (top_group (6 / 10) (target_pool [''abc1''] [''abc2'', ''abc3'']) ''abc1''))"
    by blast
  with run h1 h2 show ?thesis by blast
qed

text \<open>
  Counterexample to C4 as stated (the per-entry greedy tie is not the only path to a
  list): in the global greedy branch of \<^verbatim>\<open>match_similar\<close>, \<^verbatim>\<open>"abcd"\<close> scores 8/9 with both
  \<^verbatim>\<open>"abcdx"\<close> and \<^verbatim>\<open>"abcdy"\<close>. The two rows share the highest score and the source label
  is on both, so neither row is committed and the loop records under \<^verbatim>\<open>"abcd"\<close> the list
  of its two tied targets.
\<close>

theorem global_greedy_list_from_tie:
  "match_similar \<lparr>window_width = 200, list_repr_len = (\<lambda>l. 2)\<rparr> [] [''abcd''] [''abcdx'', ''abcdy'']
       SimplifyFalse True True True (1 / 10) (6 / 10)
     = Inr ([(''abcd'', Tied [''abcdx'', ''abcdy''])], {}, [''abcd''], [''abcdx'', ''abcdy''])"
  by code_simp

section \<open>Claim C5: consumption of targets in global greedy matching\<close>

text \<open>
  C5 (as amended). In global greedy matching, by \<^verbatim>\<open>match_similar\<close> with
  \<^verbatim>\<open>enforce_comprehensive_check\<close> (without simplification) and by
  \<^verbatim>\<open>match_comprehensive\<close>, whenever the call returns: a target that is the single match
  of one source label is not the single match of any other source label. (The members
  of a list recorded by the fallback are not taken out of the table of candidates, so a
  listed target can be matched again: see the counterexample below.)
\<close>

theorem global_greedy_single_targets_unique:
  "(match_similar con answers lfm ltbmt SimplifyFalse True smo True md limit = Inr (m1, nm1, l1, l1') \<longrightarrow>
      (\<forall>a a' b. map_of m1 a = Some (Single b) \<and> map_of m1 a' = Some (Single b) \<longrightarrow> a = a'))
   \<and> (match_comprehensive lfm ltbmt simplified = Inr (m2, nm2, l2, l2') \<longrightarrow>
      (\<forall>a a' b. map_of m2 a = Some (Single b) \<and> map_of m2 a' = Some (Single b) \<longrightarrow> a = a'))"
proof (intro conjI impI)
  assume r: "match_similar con answers lfm ltbmt SimplifyFalse True smo True md limit = Inr (m1, nm1, l1, l1')"
  let ?rows = "similarity_rows (all_similarities limit (source_pool lfm ltbmt) (target_pool lfm ltbmt))"
  from global_greedy_run [OF r] obtain m0 df where
    loop: "comprehensive_loop False 0 (m0, ?rows) = Inr (m1, df)"
    and m0: "\<forall>a. map_of m0 a = (if a \<in> set lfm \<and> a \<in> set ltbmt then Some (Single a) else None)"
    and dk: "distinct (map fst m0)"
    by blast
  have "consumption_inv m0 ?rows"
  proof (rule consumption_start [OF m0 dk])
    fix s a b assume "(s, a, b) \<in> set ?rows"
    from similarity_rows_ok [OF all_similarities_ok this]
    show "a \<in> set (source_pool lfm ltbmt) \<and> b \<in> set (target_pool lfm ltbmt)" by simp
  qed
  from consumption_loop [OF loop this] have "single_unique m1" by (simp add: consumption_inv_def)
  then show "\<forall>a a' b. map_of m1 a = Some (Single b) \<and> map_of m1 a' = Some (Single b) \<longrightarrow> a = a'"
    by (simp add: single_unique_def)
next
  assume r: "match_comprehensive lfm ltbmt simplified = Inr (m2, nm2, l2, l2')"
  show "\<forall>a a' b. map_of m2 a = Some (Single b) \<and> map_of m2 a' = Some (Single b) \<longrightarrow> a = a'"
  proof (cases "is_set simplified")
    case False
    with r obtain nml where "match_comprehensive_core lfm ltbmt = Inr (m2, nml, l2, l2')"
      and "distinct lfm" "distinct ltbmt"
      by (auto simp: match_comprehensive_def split: sum.splits dest: check_uniqueness_distinct)
    from comprehensive_core_unique [OF this] show ?thesis by (simp add: single_unique_def)
  next
    case True
    with r obtain d1 d2 m nml l l' where
      s1: "simplify_strings lfm True simplified = Inr d1"
      and s2: "simplify_strings ltbmt True simplified = Inr d2"
      and core: "match_comprehensive_core (map fst d1) (map fst d2) = Inr (m, nml, l, l')"
      and dd: "distinct (map fst d1)" "distinct (map fst d2)"
      and tb: "translate_back d1 d2 m [] = Inr m2"
      by (auto simp: match_comprehensive_def split: sum.splits; blast dest: check_uniqueness_distinct)
    from comprehensive_core_unique [OF core dd] have su: "single_unique m" and dm: "distinct (map fst m)"
      by auto
    from simplify_strings_keys [OF s1 True] obtain f1 where f1: "\<forall>k v. map_of d1 k = Some v \<longrightarrow> f1 v = k"
      by blast
    from simplify_strings_keys [OF s2 True] obtain f2 where f2: "\<forall>k v. map_of d2 k = Some v \<longrightarrow> f2 v = k"
      by blast
    have src: "\<exists>a b. map_of m a = Some (Single b) \<and> map_of d1 a = Some A \<and> map_of d2 b = Some B"
      if "map_of m2 A = Some (Single B)" for A B
      using translate_back_values [OF tb that] dm by auto
    show ?thesis
    proof (intro allI impI)
      fix A A' B assume h: "map_of m2 A = Some (Single B) \<and> map_of m2 A' = Some (Single B)"
      from src [of A B] h obtain a b where
        1: "map_of m a = Some (Single b)" "map_of d1 a = Some A" "map_of d2 b = Some B" by blast
      from src [of A' B] h obtain a' b' where
        2: "map_of m a' = Some (Single b')" "map_of d1 a' = Some A'" "map_of d2 b' = Some B" by blast
      from 1 2 f2 have "b = b'" by metis
      with 1 2 su have "a = a'" unfolding single_unique_def by blast
      with 1 2 show "A = A'" by simp
    qed
  qed
qed


text \<open>
  Witness for C5: both functions on lists with one direct and one fuzzy match.
\<close>

theorem global_greedy_single_targets_unique_witness:
  "match_similar \<lparr>window_width = 200, list_repr_len = (\<lambda>l. 2)\<rparr> [] [''Apple'', ''Oranje'', ''kiwi''] [''Apple'', ''Orange'', ''melon'']
       SimplifyFalse True True True (1 / 10) (6 / 10)
     = Inr ([(''Apple'', Single ''Apple''), (''Oranje'', Single ''Orange'')], {''kiwi''},
            [''Oranje'', ''kiwi''], [''Orange'', ''melon''])
   \<and> match_comprehensive [''Apple'', ''Oranje''] [''Apple'', ''Orange'', ''melon''] NoSimplifier
     = Inr ([(''Apple'', Single ''Apple''), (''Oranje'', Single ''Orange'')], {},
            [''Oranje''], [''Orange'', ''melon''])
   \<and> map_of [(''Apple'', Single ''Apple''), (''Oranje'', Single ''Orange'')] ''Oranje''
       = Some (Single ''Orange'')
   \<and> ''Oranje'' = ''Oranje''"
proof -
  have r1: "match_similar \<lparr>window_width = 200, list_repr_len = (\<lambda>l. 2)\<rparr> [] [''Apple'', ''Oranje'', ''kiwi''] [''Apple'', ''Orange'', ''melon'']
       SimplifyFalse True True True (1 / 10) (6 / 10)
     = Inr ([(''Apple'', Single ''Apple''), (''Oranje'', Single ''Orange'')], {''kiwi''},
            [''Oranje'', ''kiwi''], [''Orange'', ''melon''])"
    by code_simp
  have r2: "match_comprehensive [''Apple'', ''Oranje''] [''Apple'', ''Orange'', ''melon''] NoSimplifier
     = Inr ([(''Apple'', Single ''Apple''), (''Oranje'', Single ''Orange'')], {},
            [''Oranje''], [''Orange'', ''melon''])"
    by code_simp
  have h: "map_of [(''Apple'', Single ''Apple''), (''Oranje'', Single ''Orange'')] ''Oranje''
       = Some (Single ''Orange'')"
    by simp
  from global_greedy_single_targets_unique [where ?m1.0 = "[(''Apple'', Single ''Apple''), (''Oranje'', Single ''Orange'')]"
      and ?m2.0 = "[(''Apple'', Single ''Apple''), (''Oranje'', Single ''Orange'')]"
      and con = "\<lparr>window_width = 200, list_repr_len = (\<lambda>l. 2)\<rparr>" and answers = "[]" and smo = True and md = "1 / 10" and limit = "6 / 10"
      and lfm = "[''Apple'', ''Oranje'']" and ltbmt = "[''Apple'', ''Orange'', ''melon'']"
      and simplified = NoSimplifier and ?nm2.0 = "{}"
      and ?l2.0 = "[''Oranje'']" and ?l2'.0 = "[''Orange'', ''melon'']"] r2 h
  have "''Oranje'' = ''Oranje''" by blast
  with r1 r2 h show ?thesis by blast
qed

text \<open>
  Counterexample to C5 as stated: \<^verbatim>\<open>"abcd"\<close> scores 8/9 with both \<^verbatim>\<open>"abcdx"\<close> and
  \<^verbatim>\<open>"abcdy"\<close>; the fallback records the list of both for \<^verbatim>\<open>"abcd"\<close> and drops only the
  rows of \<^verbatim>\<open>"abcd"\<close> and \<^verbatim>\<open>"abcdx"\<close>. The row \<^verbatim>\<open>(abcdyzzz, abcdy)\<close> is still there and
  is committed next, so \<^verbatim>\<open>"abcdy"\<close> is a member of the list of one source label and the
  match of another, in both implementations.
\<close>

theorem global_greedy_listed_target_matched_again:
  "match_similar \<lparr>window_width = 200, list_repr_len = (\<lambda>l. 2)\<rparr> [] [''abcd'', ''abcdyzzz''] [''abcdx'', ''abcdy'']
       SimplifyFalse True True True (1 / 10) (6 / 10)
     = Inr ([(''abcd'', Tied [''abcdx'', ''abcdy'']), (''abcdyzzz'', Single ''abcdy'')], {},
            [''abcd'', ''abcdyzzz''], [''abcdx'', ''abcdy''])
   \<and> match_comprehensive [''abcd'', ''abcdyzzz''] [''abcdx'', ''abcdy''] NoSimplifier
     = Inr ([(''abcd'', Tied [''abcdx'', ''abcdy'']), (''abcdyzzz'', Single ''abcdy'')], {},
            [''abcd'', ''abcdyzzz''], [''abcdx'', ''abcdy''])"
  by code_simp

section \<open>Claim C6: range and symmetry of the score\<close>

text \<open>
  C6, as far as it holds. The score \<^verbatim>\<open>SequenceMatcher(None, a, b).ratio()\<close> of two strings
  always lies between 0 and 1, and it is 1 exactly when the two strings are identical.
  The symmetry that C6 also states is left out: it fails, see below.
\<close>

theorem ratio_range_and_identity:
  "0 \<le> ratio a b \<and> ratio a b \<le> 1 \<and> (ratio a b = 1 \<longleftrightarrow> a = b)"
  using ratio_bounds [of a b] ratio_one_imp_eq [of a b] ratio_self [of a] by blast

text \<open>The theorem at two pairs of labels: a pair of different strings and a pair of equal ones.\<close>

theorem ratio_range_and_identity_witness:
  "0 \<le> ratio ''abcd'' ''bcde'' \<and> ratio ''abcd'' ''bcde'' < 1 \<and> ratio ''abcd'' ''abcd'' = 1"
  using ratio_range_and_identity [of "''abcd''" "''bcde''"]
    ratio_range_and_identity [of "''abcd''" "''abcd''"]
  by simp

text \<open>
  C6 as stated fails in its first part: the score depends on the order of its arguments.
  With \<^verbatim>\<open>tide\<close> first, the longest block is the \<^verbatim>\<open>t\<close> (the first of the blocks of length one
  that the rows meet), which leaves nothing to its left in \<^verbatim>\<open>tide\<close> and nothing to its right
  in \<^verbatim>\<open>diet\<close>: one matching character of eight. With \<^verbatim>\<open>diet\<close> first it is the \<^verbatim>\<open>d\<close>, and
  the \<^verbatim>\<open>e\<close> to the right of it in both strings is found as well: two of eight.
\<close>

theorem ratio_not_symmetric:
  "ratio ''tide'' ''diet'' = 1 / 4 \<and> ratio ''diet'' ''tide'' = 1 / 2"
  by code_simp

section \<open>Claim C7: normalization round trip\<close>

text \<open>
  C7. When a simplification is supplied, every key of the returned \<^verbatim>\<open>match\<close> and every
  element of the returned \<^verbatim>\<open>no_match\<close> is an element of the \<^verbatim>\<open>list_for_matching\<close> that
  was passed in: the keys are values of \<^verbatim>\<open>dict_for_matching\<close>, which are original labels.
  This holds for \<^verbatim>\<open>match_similar\<close> in each of its modes, for \<^verbatim>\<open>match_comprehensive\<close> and
  for \<^verbatim>\<open>match_similar_with_manual_selection\<close>, whenever they return.
\<close>

theorem normalization_round_trip:
  "(simplify_with \<noteq> SimplifyFalse \<longrightarrow>
      match_similar con answers list_for_matching list_to_be_matched_to simplify_with
        auto_match_all single_match_only enforce_comprehensive_check minimal_distance limit
        = Inr (m1, nm1, l1, l1') \<longrightarrow>
      fst ` set m1 \<subseteq> set list_for_matching \<and> nm1 \<subseteq> set list_for_matching)
   \<and> (is_set simplified \<longrightarrow>
      match_comprehensive list_for_matching list_to_be_matched_to simplified = Inr (m2, nm2, l2, l2') \<longrightarrow>
      fst ` set m2 \<subseteq> set list_for_matching \<and> nm2 \<subseteq> set list_for_matching)
   \<and> (is_set simplified \<longrightarrow>
      match_similar_with_manual_selection con answers list_for_matching list_to_be_matched_to
        simplified minimal_distance = Inr (m3, nm3, l3, l3') \<longrightarrow>
      fst ` set m3 \<subseteq> set list_for_matching \<and> nm3 \<subseteq> set list_for_matching)"
proof (intro conjI impI)
  assume sw: "simplify_with \<noteq> SimplifyFalse"
    and run: "match_similar con answers list_for_matching list_to_be_matched_to simplify_with
        auto_match_all single_match_only enforce_comprehensive_check minimal_distance limit
        = Inr (m1, nm1, l1, l1')"
  obtain d1 lfm0 where d1: "simplify_lists simplify_with list_for_matching = (d1, lfm0)"
    by (cases "simplify_lists simplify_with list_for_matching") auto
  obtain d2 ltbmt0 where d2: "simplify_lists simplify_with list_to_be_matched_to = (d2, ltbmt0)"
    by (cases "simplify_lists simplify_with list_to_be_matched_to") auto
  from run sw d1 d2 obtain m nm where
    "translate_back d1 d2 m [] = Inr m1" and "translate_no_match d1 nm = Inr nm1"
    by (auto simp: match_similar_def split: if_splits sum.splits prod.splits)
  with translate_back_keys [of d1 d2 m "[]" m1] translate_no_match_sub [of d1 nm nm1]
    simplify_lists_ran [OF d1]
  show "fst ` set m1 \<subseteq> set list_for_matching" and "nm1 \<subseteq> set list_for_matching"
    by (auto simp: keys_dom)
next
  assume "is_set simplified"
    and run: "match_comprehensive list_for_matching list_to_be_matched_to simplified = Inr (m2, nm2, l2, l2')"
  then obtain d1 d2 m nm where "simplify_strings list_for_matching True simplified = Inr d1"
    and "translate_back d1 d2 m [] = Inr m2" and "translate_no_match d1 nm = Inr nm2"
    by (auto simp: match_comprehensive_def split: if_splits sum.splits prod.splits)
  with translate_back_keys [of d1 d2 m "[]" m2] translate_no_match_sub [of d1 nm nm2]
    simplify_strings_ran [of list_for_matching True simplified d1]
  show "fst ` set m2 \<subseteq> set list_for_matching" and "nm2 \<subseteq> set list_for_matching"
    by (auto simp: keys_dom)
next
  assume "is_set simplified"
    and run: "match_similar_with_manual_selection con answers list_for_matching list_to_be_matched_to
        simplified minimal_distance = Inr (m3, nm3, l3, l3')"
  then obtain d1 d2 m nm where "simplify_strings list_for_matching True simplified = Inr d1"
    and "translate_back d1 d2 m [] = Inr m3" and "translate_no_match d1 nm = Inr nm3"
    by (auto simp: match_similar_with_manual_selection_def split: if_splits sum.splits prod.splits)
  with translate_back_keys [of d1 d2 m "[]" m3] translate_no_match_sub [of d1 nm nm3]
    simplify_strings_ran [of list_for_matching True simplified d1]
  show "fst ` set m3 \<subseteq> set list_for_matching" and "nm3 \<subseteq> set list_for_matching"
    by (auto simp: keys_dom)
qed



text \<open>
  Witness for C7: the three functions on labels that differ from their simplified forms
  (\<^verbatim>\<open>"Apple_Pie"\<close> becomes \<^verbatim>\<open>"ApplePie"\<close> or \<^verbatim>\<open>"applepie"\<close>); each call returns and its
  keys are the original labels.
\<close>

theorem normalization_round_trip_witness:
  "match_similar \<lparr>window_width = 200, list_repr_len = (\<lambda>l. 2)\<rparr> []
       [''Apple_Pie'', ''Oranje'', ''kiwi''] [''ApplePie'', ''Or-ange''] Separators True True False
       (1 / 10) (6 / 10)
     = Inr ([(''Apple_Pie'', Single ''ApplePie''), (''Oranje'', Single ''Or-ange'')], {''kiwi''},
            [''Apple_Pie'', ''Oranje'', ''kiwi''], [''ApplePie'', ''Or-ange''])
   \<and> fst ` set [(''Apple_Pie'', Single ''ApplePie''), (''Oranje'', Single ''Or-ange'')]
       \<subseteq> set [''Apple_Pie'', ''Oranje'', ''kiwi'']
   \<and> match_comprehensive [''Apple_Pie'', ''Oranje'', ''kiwi''] [''ApplePie'', ''Or-ange''] DefaultSimplifier
     = Inr ([(''Apple_Pie'', Single ''ApplePie''), (''Oranje'', Single ''Or-ange'')], {''kiwi''},
            [''Apple_Pie'', ''Oranje'', ''kiwi''], [''ApplePie'', ''Or-ange''])
   \<and> {''kiwi''} \<subseteq> set [''Apple_Pie'', ''Oranje'', ''kiwi'']
   \<and> match_similar_with_manual_selection \<lparr>window_width = 200, list_repr_len = (\<lambda>l. 2)\<rparr> []
       [''Apple_Pie'', ''Oranje''] [''applepie'', ''Or-ange'', ''zzz''] DefaultSimplifier (1 / 10)
     = Inr ([(''Apple_Pie'', Single ''applepie''), (''Oranje'', Single ''Or-ange'')], {},
            [''Apple_Pie'', ''Oranje''], [''applepie'', ''Or-ange'', ''zzz''])
   \<and> fst ` set [(''Apple_Pie'', Single ''applepie''), (''Oranje'', Single ''Or-ange'')]
       \<subseteq> set [''Apple_Pie'', ''Oranje'']"
proof -
  have e1: "match_similar \<lparr>window_width = 200, list_repr_len = (\<lambda>l. 2)\<rparr> []
       [''Apple_Pie'', ''Oranje'', ''kiwi''] [''ApplePie'', ''Or-ange''] Separators True True False
       (1 / 10) (6 / 10)
     = Inr ([(''Apple_Pie'', Single ''ApplePie''), (''Oranje'', Single ''Or-ange'')], {''kiwi''},
            [''Apple_Pie'', ''Oranje'', ''kiwi''], [''ApplePie'', ''Or-ange''])"
    by code_simp
  have e2: "match_comprehensive [''Apple_Pie'', ''Oranje'', ''kiwi''] [''ApplePie'', ''Or-ange''] DefaultSimplifier
     = Inr ([(''Apple_Pie'', Single ''ApplePie''), (''Oranje'', Single ''Or-ange'')], {''kiwi''},
            [''Apple_Pie'', ''Oranje'', ''kiwi''], [''ApplePie'', ''Or-ange''])"
    by code_simp
  have e3: "match_similar_with_manual_selection \<lparr>window_width = 200, list_repr_len = (\<lambda>l. 2)\<rparr> []
       [''Apple_Pie'', ''Oranje''] [''applepie'', ''Or-ange'', ''zzz''] DefaultSimplifier (1 / 10)
     = Inr ([(''Apple_Pie'', Single ''applepie''), (''Oranje'', Single ''Or-ange'')], {},
            [''Apple_Pie'', ''Oranje''], [''applepie'', ''Or-ange'', ''zzz''])"
    by code_simp
  from e1 normalization_round_trip [where simplify_with = Separators
      and con = "\<lparr>window_width = 200, list_repr_len = (\<lambda>l. 2)\<rparr>" and answers = "[]"
      and list_for_matching = "[''Apple_Pie'', ''Oranje'', ''kiwi'']"
      and list_to_be_matched_to = "[''ApplePie'', ''Or-ange'']"
      and auto_match_all = True and single_match_only = True and enforce_comprehensive_check = False
      and minimal_distance = "1 / 10" and limit = "6 / 10"
      and ?m1.0 = "[(''Apple_Pie'', Single ''ApplePie''), (''Oranje'', Single ''Or-ange'')]"
      and ?nm1.0 = "{''kiwi''}"]
  have w1: "fst ` set [(''Apple_Pie'', Single ''ApplePie''), (''Oranje'', Single ''Or-ange'')]
       \<subseteq> set [''Apple_Pie'', ''Oranje'', ''kiwi'']"
    by simp
  from e3 normalization_round_trip [where simplified = DefaultSimplifier
      and con = "\<lparr>window_width = 200, list_repr_len = (\<lambda>l. 2)\<rparr>" and answers = "[]"
      and list_for_matching = "[''Apple_Pie'', ''Oranje'']"
      and list_to_be_matched_to = "[''applepie'', ''Or-ange'', ''zzz'']"
      and minimal_distance = "1 / 10"
      and ?m3.0 = "[(''Apple_Pie'', Single ''applepie''), (''Oranje'', Single ''Or-ange'')]"
      and ?nm3.0 = "{}"]
  have w3: "fst ` set [(''Apple_Pie'', Single ''applepie''), (''Oranje'', Single ''Or-ange'')]
       \<subseteq> set [''Apple_Pie'', ''Oranje'']"
    by simp
  from e2 normalization_round_trip [where simplified = DefaultSimplifier
      and list_for_matching = "[''Apple_Pie'', ''Oranje'', ''kiwi'']"
      and list_to_be_matched_to = "[''ApplePie'', ''Or-ange'']"
      and ?m2.0 = "[(''Apple_Pie'', Single ''ApplePie''), (''Oranje'', Single ''Or-ange'')]"
      and ?nm2.0 = "{''kiwi''}"]
  have w2: "{''kiwi''} \<subseteq> set [''Apple_Pie'', ''Oranje'', ''kiwi'']"
    by simp
  from e1 e2 e3 w1 w2 w3 show ?thesis by blast
qed

section \<open>Claim C8: collisions are fatal and named\<close>

text \<open>
  C8 (as amended). When the normalization of \<^verbatim>\<open>simplify_strings\<close> maps two different
  labels \<open>x\<close> and \<open>y\<close> of its input to one simplified key, the function raises its
  \<^verbatim>\<open>ValueError\<close>, and the \<^verbatim>\<open>not_unique\<close> set printed in the message holds every
  input label that was mapped to that key, and input labels only. (The simplified key
  itself is not part of the message: see the counterexample below.)
\<close>

theorem simplify_strings_collision:
  assumes "x \<in> set to_simplify" and "y \<in> set to_simplify" and "x \<noteq> y"
    and "simplified_key lower_case simplifier x = simplified_key lower_case simplifier y"
    and "lower_case \<or> is_set simplifier"
  shows "\<exists>not_unique.
      simplify_strings to_simplify lower_case simplifier = Inl (SimplificationNotUnique not_unique) \<and>
      {z \<in> set to_simplify.
         simplified_key lower_case simplifier z = simplified_key lower_case simplifier x} \<subseteq> not_unique \<and>
      not_unique \<subseteq> set to_simplify"
proof -
  define f where "f = (\<lambda>key. if is_set simplifier \<and> lower_case then lower (split_join simplifier key)
     else if is_set simplifier then split_join simplifier key else lower key)"
  have key: "\<And>key. simplified_key lower_case simplifier key = Inr (f key)"
    using assms(5) by (auto simp: simplified_key_def f_def)
  have "simplify_inv f {} ([], {})" by (simp add: simplify_inv_def)
  from simplify_loop_inv [OF this key, of to_simplify]
  obtain simplified not_unique where
    run: "simplify_loop lower_case simplifier to_simplify ([], {}) = Inr (simplified, not_unique)"
    and inv: "simplify_inv f (set to_simplify) (simplified, not_unique)"
    by auto
  from inv have sub: "not_unique \<subseteq> set to_simplify"
    and coll: "\<And>u w. u \<in> set to_simplify \<Longrightarrow> w \<in> set to_simplify \<Longrightarrow> w \<noteq> u \<Longrightarrow> f w = f u
                 \<Longrightarrow> u \<in> not_unique"
    by (auto simp: simplify_inv_def)
  from assms(4) key have fxy: "f x = f y" by simp
  have all: "z \<in> not_unique" if "z \<in> set to_simplify" and "f z = f x" for z
  proof (cases "z = x")
    case True
    with coll [of x y] assms fxy show ?thesis by simp
  next
    case False
    with coll [of z x] assms that show ?thesis by simp
  qed
  then have "x \<in> not_unique" using assms(1) by simp
  then have "not_unique \<noteq> {}" by auto
  with run have "simplify_strings to_simplify lower_case simplifier = Inl (SimplificationNotUnique not_unique)"
    by (simp add: simplify_strings_def)
  moreover have "{z \<in> set to_simplify.
         simplified_key lower_case simplifier z = simplified_key lower_case simplifier x} \<subseteq> not_unique"
    using all key by auto
  ultimately show ?thesis using sub by blast
qed

text \<open>Witness for C8: \<^verbatim>\<open>"A_b"\<close> and \<^verbatim>\<open>"AB"\<close> both simplify to \<^verbatim>\<open>"ab"\<close>.\<close>

theorem simplify_strings_collision_witness:
  "\<exists>not_unique.
      simplify_strings [''A_b'', ''AB'', ''c''] True DefaultSimplifier = Inl (SimplificationNotUnique not_unique) \<and>
      {z \<in> set [''A_b'', ''AB'', ''c''].
         simplified_key True DefaultSimplifier z = simplified_key True DefaultSimplifier ''A_b''} \<subseteq> not_unique \<and>
      not_unique \<subseteq> set [''A_b'', ''AB'', ''c'']"
proof (rule simplify_strings_collision [of "''A_b''" _ "''AB''"])
  show "simplified_key True DefaultSimplifier ''A_b'' = simplified_key True DefaultSimplifier ''AB''"
    by (simp add: simplified_key_def lower_def lower_char_def remove_separators_def separator_chars_def)
qed simp_all

text \<open>
  Counterexample to C8 as stated: for \<^verbatim>\<open>simplify_strings(["A_b", "AB"])\<close> the message
  names \<^verbatim>\<open>{"A_b", "AB"}\<close>; the simplified key \<^verbatim>\<open>"ab"\<close> onto which both collapse is
  not in it.
\<close>

theorem simplify_strings_key_not_named:
  "simplified_key True DefaultSimplifier ''A_b'' = Inr ''ab'' \<and>
   simplified_key True DefaultSimplifier ''AB'' = Inr ''ab'' \<and>
   simplify_strings [''A_b'', ''AB''] True DefaultSimplifier
     = Inl (SimplificationNotUnique {''A_b'', ''AB''}) \<and>
   ''ab'' \<notin> {''A_b'', ''AB''}"
  by (simp add: simplify_strings_def simplified_key_def add_to_simplified_def lower_def
      lower_char_def remove_separators_def separator_chars_def insert_commute)


section \<open>Claim C9: automatic matches of the manual selection\<close>

text \<open>
  C9 (as amended). In \<^verbatim>\<open>match_similar_with_manual_selection\<close>, for a source label whose
  similarity dict has at least two scores, whose best score belongs to a single target
  \<open>b\<close>, and whose best score lies more than \<^verbatim>\<open>minimal_distance_for_automatic_matching\<close>
  above the second: the pass of the loop for that label records \<open>b\<close> and reads no
  answer, and if the call returns (without simplification) the label is matched to
  \<open>b\<close>. (The target is not taken away from later source labels: see the counterexample
  below.)
\<close>

theorem manual_selection_auto_match:
  assumes "similarities_by_entry (target_pool lfm ltbmt) a = (s1, [b]) # (s2, bs2) # others"
    and "md < s1 - s2"
  shows "manual_entry con md (target_pool lfm ltbmt) a (m, answers)
           = Inr (AList.update a (Single b) m, answers)
       \<and> (a \<in> set (source_pool lfm ltbmt) \<longrightarrow>
            match_similar_with_manual_selection con answers0 lfm ltbmt NoSimplifier md
              = Inr (m', nm, l1, l2) \<longrightarrow>
            map_of m' a = Some (Single b))"
proof (intro conjI impI)
  show "manual_entry con md (target_pool lfm ltbmt) a (m, answers)
           = Inr (AList.update a (Single b) m, answers)"
    by (rule manual_entry_auto [OF assms])
next
  assume a: "a \<in> set (source_pool lfm ltbmt)"
    and r: "match_similar_with_manual_selection con answers0 lfm ltbmt NoSimplifier md
              = Inr (m', nm, l1, l2)"
  from r obtain nml where d: "distinct lfm" "distinct ltbmt"
    and core: "manual_selection_core con answers0 lfm ltbmt md = Inr (m', nml, l1, l2)"
    by (auto simp: match_similar_with_manual_selection_def split: sum.splits
        dest: check_uniqueness_distinct)
  from direct_matches_pools [OF d] obtain m0 where
    dm: "find_direct_matches lfm ltbmt = Inr (m0, source_pool lfm ltbmt, target_pool lfm ltbmt)"
    by (auto simp: find_direct_matches_def)
  from core dm obtain ans' where
    loop: "manual_loop con md (target_pool lfm ltbmt) (source_pool lfm ltbmt) (m0, answers0) = Inr (m', ans')"
    by (auto simp: manual_selection_core_def split: sum.splits)
  have "distinct (source_pool lfm ltbmt)" using d by (simp add: source_pool_def)
  from manual_loop_auto [OF loop this a assms] show "map_of m' a = Some (Single b)" .
qed

text \<open>
  Witness for C9: \<^verbatim>\<open>"abcd1"\<close> scores 4/5 with \<^verbatim>\<open>"abcdx"\<close> and 0 with \<^verbatim>\<open>"zz"\<close>.
\<close>

theorem manual_selection_auto_match_witness:
  "similarities_by_entry (target_pool [''abcd1'', ''abcd2''] [''abcdx'', ''zz'']) ''abcd1''
     = (4 / 5, [''abcdx'']) # (0, [''zz'']) # []
   \<and> (1 / 10 :: rat) < 4 / 5 - 0
   \<and> manual_entry \<lparr>window_width = 200, list_repr_len = (\<lambda>l. 2)\<rparr> (1 / 10) (target_pool [''abcd1'', ''abcd2''] [''abcdx'', ''zz'']) ''abcd1''
         ([], [Enter])
       = Inr (AList.update ''abcd1'' (Single ''abcdx'') [], [Enter])
   \<and> ''abcd1'' \<in> set (source_pool [''abcd1'', ''abcd2''] [''abcdx'', ''zz''])
   \<and> match_similar_with_manual_selection \<lparr>window_width = 200, list_repr_len = (\<lambda>l. 2)\<rparr> [] [''abcd1'', ''abcd2''] [''abcdx'', ''zz'']
         NoSimplifier (1 / 10)
       = Inr ([(''abcd1'', Single ''abcdx''), (''abcd2'', Single ''abcdx'')], {},
              [''abcd1'', ''abcd2''], [''abcdx'', ''zz''])
   \<and> map_of [(''abcd1'', Single ''abcdx''), (''abcd2'', Single ''abcdx'')] ''abcd1''
       = Some (Single ''abcdx'')"
proof -
  have h1: "similarities_by_entry (target_pool [''abcd1'', ''abcd2''] [''abcdx'', ''zz'']) ''abcd1''
     = (4 / 5, [''abcdx'']) # (0, [''zz'']) # []"
    by code_simp
  have h2: "(1 / 10 :: rat) < 4 / 5 - 0" by simp
  have h3: "''abcd1'' \<in> set (source_pool [''abcd1'', ''abcd2''] [''abcdx'', ''zz''])"
    by code_simp
  have r: "match_similar_with_manual_selection \<lparr>window_width = 200, list_repr_len = (\<lambda>l. 2)\<rparr> [] [''abcd1'', ''abcd2''] [''abcdx'', ''zz'']
         NoSimplifier (1 / 10)
       = Inr ([(''abcd1'', Single ''abcdx''), (''abcd2'', Single ''abcdx'')], {},
              [''abcd1'', ''abcd2''], [''abcdx'', ''zz''])"
    by code_simp
  from manual_selection_auto_match [OF h1 h2, where con = "\<lparr>window_width = 200, list_repr_len = (\<lambda>l. 2)\<rparr>"
      and m = "[]" and answers = "[Enter]" and ?answers0.0 = "[]"
      and m' = "[(''abcd1'', Single ''abcdx''), (''abcd2'', Single ''abcdx'')]" and nm = "{}"
      and ?l1.0 = "[''abcd1'', ''abcd2'']" and ?l2.0 = "[''abcdx'', ''zz'']"] h3 r
  have "manual_entry \<lparr>window_width = 200, list_repr_len = (\<lambda>l. 2)\<rparr> (1 / 10) (target_pool [''abcd1'', ''abcd2''] [''abcdx'', ''zz'']) ''abcd1''
         ([], [Enter])
       = Inr (AList.update ''abcd1'' (Single ''abcdx'') [], [Enter])"
    and "map_of [(''abcd1'', Single ''abcdx''), (''abcd2'', Single ''abcdx'')] ''abcd1''
       = Some (Single ''abcdx'')"
    by blast+
  with h1 h2 h3 r show ?thesis by blast
qed

text \<open>
  Counterexample to C9 as stated: \<^verbatim>\<open>"abcd1"\<close> is matched automatically to \<^verbatim>\<open>"abcdx"\<close>,
  and the later label \<^verbatim>\<open>"abcd2"\<close> is then matched automatically to the same target:
  \<^verbatim>\<open>pop()\<close> only empties the group in the similarity dict of \<^verbatim>\<open>"abcd1"\<close> itself.
\<close>

theorem manual_selection_target_not_consumed:
  "match_similar_with_manual_selection \<lparr>window_width = 200, list_repr_len = (\<lambda>l. 2)\<rparr> [] [''abcd1'', ''abcd2''] [''abcdx'', ''zz'']
       NoSimplifier (1 / 10)
     = Inr ([(''abcd1'', Single ''abcdx''), (''abcd2'', Single ''abcdx'')], {},
            [''abcd1'', ''abcd2''], [''abcdx'', ''zz''])"
  by code_simp

section \<open>Claim C10: the caller's lists\<close>

text \<open>
  C10 (as amended). Without a simplification \<^verbatim>\<open>match_similar\<close> works on the caller's two
  lists in place. When it returns, no label that occurs in both inputs (a direct match)
  is left in either list; in per-entry greedy mode no key of \<^verbatim>\<open>match\<close> is left in
  \<^verbatim>\<open>list_for_matching\<close> and no matched target (a single one or a member of a list) is left
  in \<^verbatim>\<open>list_to_be_matched_to\<close>; nothing is ever added. With a simplification the
  function rebinds its parameters to new lists and the caller's lists stay as they were.
\<close>

theorem match_similar_mutates_lists:
  assumes "match_similar con answers lfm ltbmt simplify_with ama smo ecc md limit = Inr (m, nm, l1, l2)"
  shows "(simplify_with = SimplifyFalse \<longrightarrow>
            (\<forall>a. a \<in> set lfm \<and> a \<in> set ltbmt \<longrightarrow> a \<notin> set l1 \<and> a \<notin> set l2)
          \<and> (ama \<and> \<not> ecc \<longrightarrow>
               (\<forall>a v. map_of m a = Some v \<longrightarrow> a \<notin> set l1 \<and> members v \<inter> set l2 = {}))
          \<and> set l1 \<subseteq> set lfm \<and> set l2 \<subseteq> set ltbmt)
       \<and> (simplify_with \<noteq> SimplifyFalse \<longrightarrow> l1 = lfm \<and> l2 = ltbmt)"
proof (intro conjI impI)
  assume "simplify_with \<noteq> SimplifyFalse"
  with assms show "l1 = lfm" and "l2 = ltbmt"
    by (auto simp: match_similar_def split: if_splits sum.splits prod.splits)
next
  assume sw: "simplify_with = SimplifyFalse"
  from match_similar_unchanged_sets [OF assms [unfolded sw]]
  show "\<forall>a. a \<in> set lfm \<and> a \<in> set ltbmt \<longrightarrow> a \<notin> set l1 \<and> a \<notin> set l2"
    and "set l1 \<subseteq> set lfm" and "set l2 \<subseteq> set ltbmt"
    by blast+
next
  assume sw: "simplify_with = SimplifyFalse" and "ama \<and> \<not> ecc"
  with match_similar_unchanged_sets [OF assms [unfolded sw]]
  show "\<forall>a v. map_of m a = Some v \<longrightarrow> a \<notin> set l1 \<and> members v \<inter> set l2 = {}"
    by blast
qed

text \<open>
  Witness for C10: \<^verbatim>\<open>"Apple"\<close> is matched directly, \<^verbatim>\<open>"Oranje"\<close> to \<^verbatim>\<open>"Orange"\<close>; the
  caller is left with \<^verbatim>\<open>["kiwi"]\<close> and \<^verbatim>\<open>["melon"]\<close>.
\<close>

theorem match_similar_mutates_lists_witness:
  "match_similar \<lparr>window_width = 200, list_repr_len = (\<lambda>l. 2)\<rparr> [] [''Apple'', ''Oranje'', ''kiwi''] [''Apple'', ''Orange'', ''melon'']
       SimplifyFalse True True False (1 / 10) (6 / 10)
     = Inr ([(''Apple'', Single ''Apple''), (''Oranje'', Single ''Orange'')], {''kiwi''},
            [''kiwi''], [''melon''])
   \<and> ''Apple'' \<notin> set [''kiwi''] \<and> ''Apple'' \<notin> set [''melon'']
   \<and> ''Oranje'' \<notin> set [''kiwi''] \<and> members (Single ''Orange'') \<inter> set [''melon''] = {}"
proof -
  have run: "match_similar \<lparr>window_width = 200, list_repr_len = (\<lambda>l. 2)\<rparr> [] [''Apple'', ''Oranje'', ''kiwi''] [''Apple'', ''Orange'', ''melon'']
       SimplifyFalse True True False (1 / 10) (6 / 10)
     = Inr ([(''Apple'', Single ''Apple''), (''Oranje'', Single ''Orange'')], {''kiwi''},
            [''kiwi''], [''melon''])"
    by code_simp
  have k: "map_of [(''Apple'', Single ''Apple''), (''Oranje'', Single ''Orange'')] ''Oranje''
      = Some (Single ''Orange'')"
    by simp
  have a: "''Apple'' \<in> set [''Apple'', ''Oranje'', ''kiwi'']
      \<and> ''Apple'' \<in> set [''Apple'', ''Orange'', ''melon'']"
    by simp
  from match_similar_mutates_lists [OF run] k a
  have "''Apple'' \<notin> set [''kiwi''] \<and> ''Apple'' \<notin> set [''melon'']"
    and "''Oranje'' \<notin> set [''kiwi''] \<and> members (Single ''Orange'') \<inter> set [''melon''] = {}"
    by blast+
  with run show ?thesis by blast
qed

text \<open>
  Counterexample to C10 as stated: with \<^verbatim>\<open>simplify_with="capital"\<close> the call
  \<^verbatim>\<open>match_similar(["Apple"], ["Apple"], "capital")\<close> matches \<^verbatim>\<open>"Apple"\<close> directly, and
  both lists of the caller still hold \<^verbatim>\<open>"Apple"\<close> afterwards.
\<close>

theorem match_similar_simplified_keeps_lists:
  "match_similar \<lparr>window_width = 200, list_repr_len = (\<lambda>l. 2)\<rparr> [] [''Apple''] [''Apple''] Capital True True False (1 / 10) (6 / 10)
     = Inr ([(''Apple'', Single ''Apple'')], {}, [''Apple''], [''Apple''])"
  by code_simp

end
